theory Spec2Isabelle
  imports Main "HOL-Library.Word" "HOL-Library.Multiset"
begin

section \<open>The interop client of quic-go (interop/client/main.go)\<close>

text \<open>
  The client drives external collaborators: the transports (\<open>http09.RoundTripper\<close>,
  \<open>http3.RoundTripper\<close>), \<open>net/http\<close>, \<open>os\<close> and \<open>io\<close>. Every call to one of them is
  recorded, in order, in the \<open>trace\<close> of the \<open>world\<close>; what the call returns is decided by
  an environment \<open>env\<close>, a record of functions of the world in which the call is made.
  The functions of main.go are translated one by one; a Go \<open>error\<close> result is an
  \<open>error option\<close> (\<open>None\<close> is \<open>nil\<close>), returned together with the world after the call.
\<close>

subsection \<open>Values\<close>

text \<open>
  A Go error value. \<open>errUnsupported\<close> is the package variable of line 20, compared by
  identity in \<open>main\<close>; \<open>Error m\<close> is any other error, with the text its \<open>Error()\<close>
  method gives.
\<close>

datatype error = errUnsupported | Error string

fun Error_text :: "error \<Rightarrow> string" where
  "Error_text errUnsupported = ''unsupported test case''"
| "Error_text (Error m) = m"

type_synonym VersionNumber = "32 word"

datatype variant = http09 | http3

text \<open>The field \<open>TLSClientConfig\<close> is a pointer: \<open>nil\<close>, or the global \<open>tlsConf\<close>.\<close>

datatype config_ptr = nil_config | tlsConf

text \<open>A RoundTripper struct; \<open>ident\<close> stands for the address of the allocation.\<close>

record RoundTripper =
  ident :: nat
  kind :: variant
  TLSClientConfig :: config_ptr

record request =
  Method :: string
  URL :: string
  Path :: string

type_synonym response = string

datatype event =
    New_ev RoundTripper
  | RoundTrip_ev RoundTripper request
  | Close_ev RoundTripper
  | Create_ev string
  | Copy_ev string response
  | FileClose_ev string
  | BodyClose_ev request
  | NewLRUClientSessionCache_ev nat

text \<open>
  The world: the calls made so far, the number of RoundTripper structs allocated so
  far, the global \<open>protocol.SupportedVersions\<close>, and the field \<open>ClientSessionCache\<close> of
  the global \<open>tlsConf\<close> (\<open>None\<close> is \<open>nil\<close>, \<open>Some n\<close> a cache of capacity \<open>n\<close>). \<open>main\<close>
  sets \<open>tlsConf\<close> before it calls \<open>runTestcase\<close>, so the pointer itself is never nil.
\<close>

record world =
  trace :: "event list"
  allocated :: nat
  SupportedVersions :: "VersionNumber list"
  ClientSessionCache :: "nat option"

text \<open>
  The environment. \<open>url_Parse\<close> is the URL parser behind \<open>http.NewRequest\<close> (it gives
  the path of the URL, or an error); \<open>RoundTrip_result\<close>, \<open>Close_result\<close>,
  \<open>Create_result\<close> and \<open>Copy_result\<close> give what \<open>cl.RoundTrip\<close>, \<open>r.Close\<close>, \<open>os.Create\<close>
  and \<open>io.Copy\<close> return in a world; \<open>schedule\<close> gives the order in which the goroutines
  of a batch started in a world take their steps; \<open>MethodGet0RTT\<close> is the constant
  \<open>http09.MethodGet0RTT\<close>, declared outside main.go.
\<close>

record env =
  url_Parse :: "string \<Rightarrow> error + string"
  RoundTrip_result :: "world \<Rightarrow> RoundTripper \<Rightarrow> request \<Rightarrow> error + response"
  Close_result :: "world \<Rightarrow> RoundTripper \<Rightarrow> error option"
  Create_result :: "world \<Rightarrow> string \<Rightarrow> error option"
  Copy_result :: "world \<Rightarrow> string \<Rightarrow> response \<Rightarrow> error option"
  schedule :: "world \<Rightarrow> nat list"
  MethodGet0RTT :: string

definition MethodGet :: string where
  "MethodGet = ''GET''"

subsection \<open>The external calls\<close>

definition emit :: "event \<Rightarrow> world \<Rightarrow> world" where
  "emit e w = w\<lparr>trace := trace w @ [e]\<rparr>"

text \<open>\<open>&http09.RoundTripper{...}\<close> and \<open>&http3.RoundTripper{...}\<close>: a fresh struct.\<close>

definition new_RoundTripper :: "variant \<Rightarrow> config_ptr \<Rightarrow> world \<Rightarrow> RoundTripper \<times> world" where
  "new_RoundTripper k c w =
     (let r = \<lparr>ident = allocated w, kind = k, TLSClientConfig = c\<rparr>
      in (r, emit (New_ev r) (w\<lparr>allocated := Suc (allocated w)\<rparr>)))"

text \<open>
  \<open>http.NewRequest(method, url, nil)\<close>: both methods the client passes are valid
  tokens, so the call fails exactly when the URL does not parse.
\<close>

definition NewRequest :: "env \<Rightarrow> string \<Rightarrow> string \<Rightarrow> error + request" where
  "NewRequest env method url =
     (case url_Parse env url of
        Inl err \<Rightarrow> Inl err
      | Inr p \<Rightarrow> Inr \<lparr>Method = method, URL = url, Path = p\<rparr>)"

definition RoundTrip :: "env \<Rightarrow> RoundTripper \<Rightarrow> request \<Rightarrow> world \<Rightarrow> (error + response) \<times> world" where
  "RoundTrip env cl req w = (RoundTrip_result env w cl req, emit (RoundTrip_ev cl req) w)"

definition Close :: "env \<Rightarrow> RoundTripper \<Rightarrow> world \<Rightarrow> error option \<times> world" where
  "Close env r w = (Close_result env w r, emit (Close_ev r) w)"

definition os_Create :: "env \<Rightarrow> string \<Rightarrow> world \<Rightarrow> error option \<times> world" where
  "os_Create env p w = (Create_result env w p, emit (Create_ev p) w)"

definition io_Copy :: "env \<Rightarrow> string \<Rightarrow> response \<Rightarrow> world \<Rightarrow> error option \<times> world" where
  "io_Copy env p rsp w = (Copy_result env w p rsp, emit (Copy_ev p rsp) w)"

text \<open>\<open>strings.Contains(s, substr)\<close>, on the bytes of the strings.\<close>

fun HasPrefix :: "string \<Rightarrow> string \<Rightarrow> bool" where
  "HasPrefix s [] = True"
| "HasPrefix [] (p # ps) = False"
| "HasPrefix (c # s) (p # ps) = (c = p \<and> HasPrefix s ps)"

fun Contains :: "string \<Rightarrow> string \<Rightarrow> bool" where
  "Contains [] substr = (substr = [])"
| "Contains (c # s) substr = (HasPrefix (c # s) substr \<or> Contains s substr)"

subsection \<open>downloadFile (lines 141 to 163)\<close>

text \<open>
  The deferred calls run when the function returns, last registered first:
  \<open>file.Close()\<close>, then \<open>rsp.Body.Close()\<close>; what they return is dropped.
\<close>

definition downloadFile :: "env \<Rightarrow> RoundTripper \<Rightarrow> string \<Rightarrow> bool \<Rightarrow> world \<Rightarrow> error option \<times> world" where
  "downloadFile env cl url use0RTT w =
     (let method = (if use0RTT then MethodGet0RTT env else MethodGet) in
      case NewRequest env method url of
        Inl err \<Rightarrow> (Some err, w)
      | Inr req \<Rightarrow>
          (case RoundTrip env cl req w of
             (Inl err, w1) \<Rightarrow> (Some err, w1)
           | (Inr rsp, w1) \<Rightarrow>
               (case os_Create env (''/downloads'' @ Path req) w1 of
                  (Some err, w2) \<Rightarrow> (Some err, emit (BodyClose_ev req) w2)
                | (None, w2) \<Rightarrow>
                    (case io_Copy env (''/downloads'' @ Path req) rsp w2 of
                       (err, w3) \<Rightarrow>
                         (err, emit (BodyClose_ev req)
                                 (emit (FileClose_ev (''/downloads'' @ Path req)) w3))))))"

subsection \<open>runVersionNegotiationTest (lines 82 to 95)\<close>

definition runVersionNegotiationTest :: "env \<Rightarrow> string list \<Rightarrow> world \<Rightarrow> error option \<times> world" where
  "runVersionNegotiationTest env urls w =
     (if length urls \<noteq> 1 then (Some (Error ''expected at least 2 URLs''), w)
      else
        (case new_RoundTripper http09 nil_config (w\<lparr>SupportedVersions := [0x1a2a3a4a]\<rparr>) of
           (r, w1) \<Rightarrow>
             (case downloadFile env r (urls ! 0) False w1 of
                (None, w2) \<Rightarrow> (Some (Error ''expected version negotiation to fail''), w2)
              | (Some err, w2) \<Rightarrow>
                  if \<not> Contains (Error_text err) ''No compatible QUIC version found''
                  then (Some (Error (''expect version negotiation error, got: '' @ Error_text err)), w2)
                  else (None, w2))))"

subsection \<open>runMultiConnectTest (lines 97 to 108)\<close>

text \<open>The body of the loop, for one URL; \<open>None\<close> means the loop goes on.\<close>

definition connect_once :: "env \<Rightarrow> string \<Rightarrow> world \<Rightarrow> error option \<times> world" where
  "connect_once env url w =
     (case new_RoundTripper http09 tlsConf w of
        (r, w1) \<Rightarrow>
          (case downloadFile env r url False w1 of
             (Some err, w2) \<Rightarrow> (Some err, w2)
           | (None, w2) \<Rightarrow> Close env r w2))"

fun runMultiConnectTest :: "env \<Rightarrow> string list \<Rightarrow> world \<Rightarrow> error option \<times> world" where
  "runMultiConnectTest env [] w = (None, w)"
| "runMultiConnectTest env (url # urls) w =
     (case connect_once env url w of
        (Some err, w1) \<Rightarrow> (Some err, w1)
      | (None, w1) \<Rightarrow> runMultiConnectTest env urls w1)"

subsection \<open>downloadFiles (lines 130 to 139)\<close>

text \<open>
  \<open>g.Go\<close> starts one goroutine per URL, each running \<open>downloadFile\<close>; the goroutines
  interleave at the external calls, and an external call is one step: it is recorded,
  and what it returns is fixed, when it is made. A \<open>task\<close> is \<open>downloadFile\<close> with its
  program counter: not started, holding the response, holding the open file, with the
  two deferred closes pending, with the deferred close of the body pending, returned.
\<close>

datatype task =
    Start RoundTripper string bool
  | GotResponse request response
  | FileOpen request response
  | ClosingFile "error option" request
  | ClosingBody "error option" request
  | Done "error option"

fun task_step :: "env \<Rightarrow> task \<Rightarrow> world \<Rightarrow> task \<times> world" where
  "task_step env (Start cl url use0RTT) w =
     (case NewRequest env (if use0RTT then MethodGet0RTT env else MethodGet) url of
        Inl err \<Rightarrow> (Done (Some err), w)
      | Inr req \<Rightarrow>
          (case RoundTrip env cl req w of
             (Inl err, w1) \<Rightarrow> (Done (Some err), w1)
           | (Inr rsp, w1) \<Rightarrow> (GotResponse req rsp, w1)))"
| "task_step env (GotResponse req rsp) w =
     (case os_Create env (''/downloads'' @ Path req) w of
        (Some err, w1) \<Rightarrow> (ClosingBody (Some err) req, w1)
      | (None, w1) \<Rightarrow> (FileOpen req rsp, w1))"
| "task_step env (FileOpen req rsp) w =
     (case io_Copy env (''/downloads'' @ Path req) rsp w of
        (err, w1) \<Rightarrow> (ClosingFile err req, w1))"
| "task_step env (ClosingFile err req) w =
     (ClosingBody err req, emit (FileClose_ev (''/downloads'' @ Path req)) w)"
| "task_step env (ClosingBody err req) w = (Done err, emit (BodyClose_ev req) w)"
| "task_step env (Done err) w = (Done err, w)"

fun returned :: "task \<Rightarrow> bool" where
  "returned (Done err) = True"
| "returned t = False"

text \<open>
  The \<open>errgroup.Group\<close>: its goroutines, and the error of the first goroutine that
  returned one (\<open>errOnce\<close> keeps the first and drops the later ones).
\<close>

record group =
  goroutines :: "task list"
  group_err :: "error option"

definition record_err :: "task \<Rightarrow> task \<Rightarrow> error option \<Rightarrow> error option" where
  "record_err t t' ge =
     (if returned t then ge
      else case t' of
             Done (Some e) \<Rightarrow> (case ge of None \<Rightarrow> Some e | Some e0 \<Rightarrow> Some e0)
           | _ \<Rightarrow> ge)"

text \<open>Goroutine \<open>i\<close> takes its next step; a goroutine that has returned takes none.\<close>

definition Go_step :: "env \<Rightarrow> nat \<Rightarrow> group \<times> world \<Rightarrow> group \<times> world" where
  "Go_step env i gw =
     (case gw of
        (g, w) \<Rightarrow>
          if i < length (goroutines g) then
            (case task_step env (goroutines g ! i) w of
               (t', w') \<Rightarrow>
                 (\<lparr>goroutines = (goroutines g)[i := t'],
                   group_err = record_err (goroutines g ! i) t' (group_err g)\<rparr>, w'))
          else (g, w))"

text \<open>
  \<open>g.Wait()\<close> returns when every goroutine has: the goroutines step in the order the
  environment's schedule gives, and what is left when the schedule is used up runs in
  the order of the URLs (a task returns within five steps).
\<close>

definition Wait :: "env \<Rightarrow> group \<times> world \<Rightarrow> group \<times> world" where
  "Wait env gw =
     fold (Go_step env)
       (schedule env (snd gw) @ concat (map (replicate 5) [0..<length (goroutines (fst gw))])) gw"

definition launch :: "RoundTripper \<Rightarrow> string list \<Rightarrow> bool \<Rightarrow> group" where
  "launch cl urls use0RTT =
     \<lparr>goroutines = map (\<lambda>url. Start cl url use0RTT) urls, group_err = None\<rparr>"

definition downloadFiles :: "env \<Rightarrow> RoundTripper \<Rightarrow> string list \<Rightarrow> bool \<Rightarrow> world \<Rightarrow> error option \<times> world" where
  "downloadFiles env cl urls use0RTT w =
     (case Wait env (launch cl urls use0RTT, w) of (g, w') \<Rightarrow> (group_err g, w'))"

subsection \<open>runResumptionTest (lines 110 to 128)\<close>

text \<open>
  \<open>urls[:1]\<close> and \<open>urls[1:]\<close> are \<open>take 1 urls\<close> and \<open>drop 1 urls\<close>: the slices are taken
  after the check of the length. What \<open>r.Close()\<close> returns is dropped, in line 122 and
  in the deferred call of line 126.
\<close>

definition runResumptionTest :: "env \<Rightarrow> string list \<Rightarrow> bool \<Rightarrow> world \<Rightarrow> error option \<times> world" where
  "runResumptionTest env urls use0RTT w =
     (if length urls < 2 then (Some (Error ''expected at least 2 URLs''), w)
      else
        (case new_RoundTripper http09 tlsConf
                (emit (NewLRUClientSessionCache_ev 1) (w\<lparr>ClientSessionCache := Some 1\<rparr>)) of
           (r, w1) \<Rightarrow>
             (case downloadFiles env r (take 1 urls) False w1 of
                (Some err, w2) \<Rightarrow> (Some err, w2)
              | (None, w2) \<Rightarrow>
                  (case Close env r w2 of
                     (close_err1, w3) \<Rightarrow>
                       (case new_RoundTripper http09 tlsConf w3 of
                          (r2, w4) \<Rightarrow>
                            (case downloadFiles env r2 (drop 1 urls) use0RTT w4 of
                               (res, w5) \<Rightarrow>
                                 (case Close env r2 w5 of (close_err2, w6) \<Rightarrow> (res, w6))))))))"

subsection \<open>runTestcase (lines 55 to 80)\<close>

text \<open>
  \<open>urls\<close> are the arguments of the command line (\<open>flag.Args()\<close>). The cases
  \<open>handshake\<close>, \<open>transfer\<close> and \<open>retry\<close> leave the switch and run lines 77 to 79.
\<close>

definition runTestcase :: "env \<Rightarrow> string \<Rightarrow> string list \<Rightarrow> world \<Rightarrow> error option \<times> world" where
  "runTestcase env testcase urls w =
     (if testcase = ''http3'' then
        (case new_RoundTripper http3 tlsConf w of
           (r, w1) \<Rightarrow>
             (case downloadFiles env r urls False w1 of
                (res, w2) \<Rightarrow> (case Close env r w2 of (close_err, w3) \<Rightarrow> (res, w3))))
      else if testcase = ''handshake'' \<or> testcase = ''transfer'' \<or> testcase = ''retry'' then
        (case new_RoundTripper http09 tlsConf w of
           (r, w1) \<Rightarrow>
             (case downloadFiles env r urls False w1 of
                (res, w2) \<Rightarrow> (case Close env r w2 of (close_err, w3) \<Rightarrow> (res, w3))))
      else if testcase = ''multiconnect'' then runMultiConnectTest env urls w
      else if testcase = ''versionnegotiation'' then runVersionNegotiationTest env urls w
      else if testcase = ''resumption'' then runResumptionTest env urls False w
      else if testcase = ''zerortt'' then runResumptionTest env urls True w
      else (Some errUnsupported, w))"

section \<open>Observations on traces\<close>

text \<open>
  What a function did is read from the calls it appended to the trace:
  \<open>extends w evs\<close> is the world \<open>w\<close> after the calls \<open>evs\<close>, and \<open>delta w w'\<close> is the part of
  the trace of \<open>w'\<close> after the calls of \<open>w\<close>.
\<close>

definition extends :: "world \<Rightarrow> event list \<Rightarrow> world" where
  "extends w evs = w\<lparr>trace := trace w @ evs\<rparr>"

definition delta :: "world \<Rightarrow> world \<Rightarrow> event list" where
  "delta w w' = drop (length (trace w)) (trace w')"

text \<open>The RoundTrippers created, those closed, the exchanges and the files created, in order.\<close>

fun opened :: "event list \<Rightarrow> RoundTripper list" where
  "opened [] = []"
| "opened (New_ev r # evs) = r # opened evs"
| "opened (e # evs) = opened evs"

fun closed :: "event list \<Rightarrow> RoundTripper list" where
  "closed [] = []"
| "closed (Close_ev r # evs) = r # closed evs"
| "closed (e # evs) = closed evs"

fun fetched :: "event list \<Rightarrow> (RoundTripper \<times> request) list" where
  "fetched [] = []"
| "fetched (RoundTrip_ev r q # evs) = (r, q) # fetched evs"
| "fetched (e # evs) = fetched evs"

fun created :: "event list \<Rightarrow> string list" where
  "created [] = []"
| "created (Create_ev p # evs) = p # created evs"
| "created (e # evs) = created evs"

definition fetched_urls :: "event list \<Rightarrow> string list" where
  "fetched_urls evs = map (\<lambda>(r, q). URL q) (fetched evs)"

definition parses :: "env \<Rightarrow> string \<Rightarrow> bool" where
  "parses env url = (case url_Parse env url of Inl err \<Rightarrow> False | Inr p \<Rightarrow> True)"

text \<open>
  The calls a download on the RoundTripper \<open>cl\<close> for URLs among \<open>urls\<close> may make: an
  exchange on \<open>cl\<close> for one of the URLs with the method \<open>use0RTT\<close> selects, and calls on
  files and response bodies; no RoundTripper is created or closed.
\<close>

fun transfer_ev :: "env \<Rightarrow> RoundTripper \<Rightarrow> string list \<Rightarrow> bool \<Rightarrow> event \<Rightarrow> bool" where
  "transfer_ev env cl urls use0RTT (RoundTrip_ev r q) =
     (r = cl \<and> URL q \<in> set urls \<and> Method q = (if use0RTT then MethodGet0RTT env else MethodGet))"
| "transfer_ev env cl urls use0RTT (New_ev r) = False"
| "transfer_ev env cl urls use0RTT (Close_ev r) = False"
| "transfer_ev env cl urls use0RTT (NewLRUClientSessionCache_ev n) = False"
| "transfer_ev env cl urls use0RTT e = True"

text \<open>The http09 RoundTripper with the global TLS configuration allocated as number \<open>i\<close>.\<close>

definition http09_conn :: "nat \<Rightarrow> RoundTripper" where
  "http09_conn i = \<lparr>ident = i, kind = http09, TLSClientConfig = tlsConf\<rparr>"

subsection \<open>The calls of one goroutine\<close>

text \<open>
  The goroutines of a batch share the trace. \<open>calls_of i w owner evs\<close> are the calls among
  \<open>evs\<close>, made from the world \<open>w\<close> on, that goroutine \<open>i\<close> made, each with the world in which
  it was made; \<open>owner\<close> gives, call by call, the goroutine that made it.
\<close>

fun calls_of :: "nat \<Rightarrow> world \<Rightarrow> nat list \<Rightarrow> event list \<Rightarrow> (world \<times> event) list" where
  "calls_of i w (j # owner) (ev # evs) =
     (if j = i then [(w, ev)] else []) @ calls_of i (emit ev w) owner evs"
| "calls_of i w owner evs = []"

text \<open>
  \<open>fetch_run env cl url use0RTT calls res\<close>: the calls \<open>calls\<close> are those of one complete
  run of \<open>downloadFile(cl, url, use0RTT)\<close> (lines 141 to 163) that returns \<open>res\<close>, every
  call answered by the environment in the world in which it is made: no call when the
  request cannot be built; the exchange alone when it fails; the exchange, \<open>os.Create\<close>
  and the close of the body when the file cannot be created; and otherwise the
  exchange, \<open>os.Create\<close>, \<open>io.Copy\<close>, the close of the file and the close of the body,
  with the result of \<open>io.Copy\<close>.
\<close>

definition fetch_run :: "env \<Rightarrow> RoundTripper \<Rightarrow> string \<Rightarrow> bool \<Rightarrow> (world \<times> event) list \<Rightarrow>
    error option \<Rightarrow> bool" where
  "fetch_run env cl url use0RTT calls res =
     (case NewRequest env (if use0RTT then MethodGet0RTT env else MethodGet) url of
        Inl err \<Rightarrow> calls = [] \<and> res = Some err
      | Inr req \<Rightarrow>
          (case calls of
             [] \<Rightarrow> False
           | (w1, e1) # calls1 \<Rightarrow>
               e1 = RoundTrip_ev cl req \<and>
               (case RoundTrip_result env w1 cl req of
                  Inl err \<Rightarrow> calls1 = [] \<and> res = Some err
                | Inr rsp \<Rightarrow>
                    (case calls1 of
                       [] \<Rightarrow> False
                     | (w2, e2) # calls2 \<Rightarrow>
                         e2 = Create_ev (''/downloads'' @ Path req) \<and>
                         (case Create_result env w2 (''/downloads'' @ Path req) of
                            Some err \<Rightarrow> map snd calls2 = [BodyClose_ev req] \<and> res = Some err
                          | None \<Rightarrow>
                              (case calls2 of
                                 [] \<Rightarrow> False
                               | (w3, e3) # calls3 \<Rightarrow>
                                   e3 = Copy_ev (''/downloads'' @ Path req) rsp
                                 \<and> res = Copy_result env w3 (''/downloads'' @ Path req) rsp
                                 \<and> map snd calls3 =
                                     [FileClose_ev (''/downloads'' @ Path req),
                                      BodyClose_ev req]))))))"

subsection \<open>Monitors\<close>

text \<open>
  One connection at a time: a RoundTripper is created only when none is open, is used
  for one exchange, and is closed after that exchange. \<open>sequential c evs\<close> runs the calls
  \<open>evs\<close> from the state \<open>c\<close>; it gives \<open>None\<close> for calls that break the discipline.
\<close>

datatype conn = Idle | Fresh RoundTripper | Used RoundTripper

fun sequential :: "conn \<Rightarrow> event list \<Rightarrow> conn option" where
  "sequential c [] = Some c"
| "sequential c (New_ev r # evs) = (if c = Idle then sequential (Fresh r) evs else None)"
| "sequential c (RoundTrip_ev r q # evs) = (if c = Fresh r then sequential (Used r) evs else None)"
| "sequential c (Close_ev r # evs) = (if c = Used r then sequential Idle evs else None)"
| "sequential c (e # evs) = sequential c evs"

fun live_of :: "conn \<Rightarrow> RoundTripper list" where
  "live_of Idle = []"
| "live_of (Fresh r) = [r]"
| "live_of (Used r) = [r]"

text \<open>
  The life of the RoundTrippers in a list of calls: \<open>seen\<close> are those created so far,
  \<open>live\<close> those created and not yet closed. A RoundTripper is created once, used for an
  exchange only while it is live, and closed only while it is live; \<open>lifecycle\<close> gives
  \<open>None\<close> for calls that break this, and otherwise the RoundTrippers seen and those left
  live at the end.
\<close>

fun lifecycle :: "RoundTripper list \<Rightarrow> RoundTripper list \<Rightarrow> event list \<Rightarrow>
    (RoundTripper list \<times> RoundTripper list) option" where
  "lifecycle seen live [] = Some (seen, live)"
| "lifecycle seen live (New_ev r # evs) =
     (if r \<in> set seen then None else lifecycle (r # seen) (r # live) evs)"
| "lifecycle seen live (RoundTrip_ev r q # evs) =
     (if r \<in> set live then lifecycle seen live evs else None)"
| "lifecycle seen live (Close_ev r # evs) =
     (if r \<in> set live then lifecycle seen (removeAll r live) evs else None)"
| "lifecycle seen live (e # evs) = lifecycle seen live evs"

subsection \<open>Invariants of a batch\<close>

text \<open>
  A goroutine of the batch on \<open>cl\<close>, \<open>urls\<close> and \<open>use0RTT\<close>; the error it returned; the
  steps it has left at most; and the URL it still has to exchange.
\<close>

fun task_for :: "RoundTripper \<Rightarrow> string list \<Rightarrow> bool \<Rightarrow> task \<Rightarrow> bool" where
  "task_for cl urls use0RTT (Start c u f) = (c = cl \<and> u \<in> set urls \<and> f = use0RTT)"
| "task_for cl urls use0RTT t = True"

fun failure :: "task \<Rightarrow> error option" where
  "failure (Done e) = e"
| "failure t = None"

fun steps_left :: "task \<Rightarrow> nat" where
  "steps_left (Start c u f) = 5"
| "steps_left (GotResponse q rsp) = 4"
| "steps_left (FileOpen q rsp) = 3"
| "steps_left (ClosingFile e q) = 2"
| "steps_left (ClosingBody e q) = 1"
| "steps_left (Done e) = 0"

fun owed :: "env \<Rightarrow> task \<Rightarrow> string multiset" where
  "owed env (Start c u f) = (if parses env u then {#u#} else {#})"
| "owed env t = {#}"

text \<open>Every step of a batch appends transfer events of the batch and nothing else.\<close>

definition batch_inv :: "env \<Rightarrow> RoundTripper \<Rightarrow> string list \<Rightarrow> bool \<Rightarrow> world \<Rightarrow> group \<times> world \<Rightarrow> bool" where
  "batch_inv env cl urls b w gw \<longleftrightarrow>
     list_all (task_for cl urls b) (goroutines (fst gw))
     \<and> (\<exists>evs. snd gw = extends w evs \<and> list_all (transfer_ev env cl urls b) evs)"

text \<open>The error of the group is the error of a goroutine that returned one.\<close>

definition err_inv :: "group \<Rightarrow> bool" where
  "err_inv g \<longleftrightarrow>
     (case group_err g of
        None \<Rightarrow> list_all (\<lambda>t. failure t = None) (goroutines g)
      | Some e \<Rightarrow> Done (Some e) \<in> set (goroutines g))"

text \<open>Every URL of a batch that parses is exchanged once.\<close>

definition count_inv :: "env \<Rightarrow> string list \<Rightarrow> world \<Rightarrow> group \<times> world \<Rightarrow> bool" where
  "count_inv env urls w gw \<longleftrightarrow>
     (\<exists>evs. snd gw = extends w evs
        \<and> mset (fetched_urls evs) + sum_list (map (owed env) (goroutines (fst gw)))
            = mset (filter (parses env) urls))"

text \<open>
  The calls a goroutine for \<open>url\<close> has made so far, by the point of \<open>downloadFile\<close> it is
  at; a goroutine that has returned has made a complete run.
\<close>

fun progress :: "env \<Rightarrow> RoundTripper \<Rightarrow> string \<Rightarrow> bool \<Rightarrow> (world \<times> event) list \<Rightarrow> task \<Rightarrow> bool" where
  "progress env cl url b calls (Start c u f) = (c = cl \<and> u = url \<and> f = b \<and> calls = [])"
| "progress env cl url b calls (GotResponse req rsp) =
     (NewRequest env (if b then MethodGet0RTT env else MethodGet) url = Inr req
      \<and> (\<exists>w1. calls = [(w1, RoundTrip_ev cl req)] \<and> RoundTrip_result env w1 cl req = Inr rsp))"
| "progress env cl url b calls (FileOpen req rsp) =
     (NewRequest env (if b then MethodGet0RTT env else MethodGet) url = Inr req
      \<and> (\<exists>w1 w2. calls = [(w1, RoundTrip_ev cl req), (w2, Create_ev (''/downloads'' @ Path req))]
            \<and> RoundTrip_result env w1 cl req = Inr rsp
            \<and> Create_result env w2 (''/downloads'' @ Path req) = None))"
| "progress env cl url b calls (ClosingFile err req) =
     (NewRequest env (if b then MethodGet0RTT env else MethodGet) url = Inr req
      \<and> (\<exists>rsp w1 w2 w3.
            calls = [(w1, RoundTrip_ev cl req), (w2, Create_ev (''/downloads'' @ Path req)),
                     (w3, Copy_ev (''/downloads'' @ Path req) rsp)]
            \<and> RoundTrip_result env w1 cl req = Inr rsp
            \<and> Create_result env w2 (''/downloads'' @ Path req) = None
            \<and> err = Copy_result env w3 (''/downloads'' @ Path req) rsp))"
| "progress env cl url b calls (ClosingBody err req) =
     (NewRequest env (if b then MethodGet0RTT env else MethodGet) url = Inr req
      \<and> (\<exists>rsp w1 w2.
            RoundTrip_result env w1 cl req = Inr rsp
            \<and> ((\<exists>e. calls = [(w1, RoundTrip_ev cl req), (w2, Create_ev (''/downloads'' @ Path req))]
                    \<and> Create_result env w2 (''/downloads'' @ Path req) = Some e \<and> err = Some e)
               \<or> (\<exists>w3 w4.
                    calls = [(w1, RoundTrip_ev cl req), (w2, Create_ev (''/downloads'' @ Path req)),
                             (w3, Copy_ev (''/downloads'' @ Path req) rsp),
                             (w4, FileClose_ev (''/downloads'' @ Path req))]
                    \<and> Create_result env w2 (''/downloads'' @ Path req) = None
                    \<and> err = Copy_result env w3 (''/downloads'' @ Path req) rsp))))"
| "progress env cl url b calls (Done err) = fetch_run env cl url b calls err"

text \<open>
  The calls of a batch so far are shared out among its goroutines, and goroutine \<open>i\<close>
  has made the calls of \<open>downloadFile\<close> for the \<open>i\<close>-th URL up to the point it is at.
\<close>

definition run_inv :: "env \<Rightarrow> RoundTripper \<Rightarrow> string list \<Rightarrow> bool \<Rightarrow> world \<Rightarrow> group \<times> world \<Rightarrow> bool" where
  "run_inv env cl urls b w gw \<longleftrightarrow>
     length (goroutines (fst gw)) = length urls
     \<and> (\<exists>evs owner.
           snd gw = extends w evs \<and> length owner = length evs
         \<and> list_all (\<lambda>j. j < length urls) owner
         \<and> (\<forall>i<length urls.
              progress env cl (urls ! i) b (calls_of i w owner evs) (goroutines (fst gw) ! i)))"

section \<open>The plain transfer of the specification\<close>

text \<open>
  The plain transfer, following the words of the specification (section 4.4): it opens
  exactly one transport handle, passes it with the full URL list to the concurrent
  fetch group, and closes the handle before returning, on the success and on the
  failure path. In main.go it is the code of the cases \<open>http3\<close> (lines 61 to 63) and
  \<open>handshake\<close>, \<open>transfer\<close>, \<open>retry\<close> (lines 77 to 79) of \<open>runTestcase\<close>.
\<close>

definition spec_plain_transfer :: "env \<Rightarrow> variant \<Rightarrow> string list \<Rightarrow> world \<Rightarrow> error option \<times> world" where
  "spec_plain_transfer env v urls w =
     (case new_RoundTripper v tlsConf w of
        (r, w1) \<Rightarrow>
          (case downloadFiles env r urls False w1 of
             (res, w2) \<Rightarrow> (res, snd (Close env r w2))))"

section \<open>Environments and worlds for concrete runs\<close>

text \<open>
  \<open>env_ok\<close>: every URL but \<open>%zz\<close> parses (to itself, as its path) and every call
  succeeds; \<open>env_rt e\<close>: every exchange fails with the error \<open>e\<close>; \<open>env_one u e\<close>: the
  exchange for the URL \<open>u\<close> fails with \<open>e\<close>; \<open>env_close e\<close>: every \<open>Close\<close> of a RoundTripper
  returns the error \<open>e\<close>. \<open>w0\<close> is a world in which nothing has been called yet.
\<close>

definition env_ok :: env where
  "env_ok =
     \<lparr>url_Parse = (\<lambda>u. if u = ''%zz'' then Inl (Error ''invalid URL escape'') else Inr u),
      RoundTrip_result = (\<lambda>w r q. Inr ''body''),
      Close_result = (\<lambda>w r. None),
      Create_result = (\<lambda>w p. None),
      Copy_result = (\<lambda>w p rsp. None),
      schedule = (\<lambda>w. [1, 0, 1, 1, 0]),
      MethodGet0RTT = ''GET_0RTT''\<rparr>"

definition env_rt :: "error \<Rightarrow> env" where
  "env_rt e = env_ok\<lparr>RoundTrip_result := (\<lambda>w r q. Inl e)\<rparr>"

definition env_one :: "string \<Rightarrow> error \<Rightarrow> env" where
  "env_one u e =
     env_ok\<lparr>RoundTrip_result := (\<lambda>w r q. if URL q = u then Inl e else Inr ''body'')\<rparr>"

definition env_close :: "error \<Rightarrow> env" where
  "env_close e = env_ok\<lparr>Close_result := (\<lambda>w r. Some e)\<rparr>"

definition w0 :: world where
  "w0 = \<lparr>trace = [], allocated = 0, SupportedVersions = [0xff00001d], ClientSessionCache = None\<rparr>"

definition r0 :: RoundTripper where
  "r0 = \<lparr>ident = 0, kind = http09, TLSClientConfig = tlsConf\<rparr>"

section \<open>Properties\<close>

subsection \<open>Strings and observations\<close>

lemma HasPrefix_iff: "HasPrefix s p \<longleftrightarrow> (\<exists>b. s = p @ b)"
  by (induction s p rule: HasPrefix.induct) auto

lemma Contains_iff: "Contains s substr \<longleftrightarrow> (\<exists>a b. s = a @ substr @ b)"
proof (induction s)
  case Nil
  show ?case by auto
next
  case (Cons c s)
  have "(\<exists>a b. c # s = a @ substr @ b) \<longleftrightarrow>
        (\<exists>b. c # s = substr @ b) \<or> (\<exists>a b. s = a @ substr @ b)"
    by (auto simp: Cons_eq_append_conv)
  with Cons show ?case by (simp add: HasPrefix_iff del: HasPrefix.simps)
qed

lemma opened_append: "opened (xs @ ys) = opened xs @ opened ys"
  by (induction xs rule: opened.induct) auto

lemma closed_append: "closed (xs @ ys) = closed xs @ closed ys"
  by (induction xs rule: closed.induct) auto

lemma fetched_append: "fetched (xs @ ys) = fetched xs @ fetched ys"
  by (induction xs rule: fetched.induct) auto

lemma created_append: "created (xs @ ys) = created xs @ created ys"
  by (induction xs rule: created.induct) auto

lemmas ext_defs =
  NewRequest_def RoundTrip_def Close_def os_Create_def io_Copy_def emit_def new_RoundTripper_def

lemmas env_defs = env_ok_def env_rt_def env_close_def w0_def r0_def MethodGet_def

subsection \<open>downloadFile\<close>

lemma downloadFile_versions:
  "SupportedVersions (snd (downloadFile env cl url b w)) = SupportedVersions w"
  by (simp add: downloadFile_def ext_defs Let_def split: sum.splits option.splits prod.splits)

subsection \<open>The sequential strategies\<close>

lemma extends_Nil [simp]: "extends w [] = w"
  by (simp add: extends_def)

lemma extends_extends [simp]: "extends (extends w xs) ys = extends w (xs @ ys)"
  by (simp add: extends_def)

lemma emit_extends: "emit e w = extends w [e]"
  by (simp add: emit_def extends_def)

lemma extends_fields [simp]:
  "trace (extends w evs) = trace w @ evs"
  "allocated (extends w evs) = allocated w"
  "SupportedVersions (extends w evs) = SupportedVersions w"
  "ClientSessionCache (extends w evs) = ClientSessionCache w"
  by (simp_all add: extends_def)

lemma delta_extends [simp]: "delta w (extends w evs) = evs"
  by (simp add: delta_def)

lemma sequential_append:
  "sequential c (xs @ ys) = (case sequential c xs of None \<Rightarrow> None | Some c' \<Rightarrow> sequential c' ys)"
  by (induction c xs rule: sequential.induct) auto

lemma transfer_no_open: "list_all (transfer_ev env cl urls b) evs \<Longrightarrow> opened evs = [] \<and> closed evs = []"
  by (induction evs rule: opened.induct) auto

lemma sequential_quiet:
  "opened evs = [] \<Longrightarrow> closed evs = [] \<Longrightarrow> fetched evs = [] \<Longrightarrow> sequential c evs = Some c"
  by (induction c evs rule: sequential.induct) auto

lemma sequential_one_fetch:
  "opened evs = [] \<Longrightarrow> closed evs = [] \<Longrightarrow> fetched evs = [(cl, q)] \<Longrightarrow>
   sequential (Fresh cl) evs = Some (Used cl)"
  by (induction "Fresh cl" evs rule: sequential.induct) (auto simp: sequential_quiet)

lemma downloadFile_extends:
  "\<exists>evs. snd (downloadFile env cl url b w) = extends w evs
      \<and> list_all (transfer_ev env cl [url] b) evs
      \<and> (fetched evs = [] \<or> (\<exists>q. fetched evs = [(cl, q)] \<and> URL q = url))
      \<and> (fst (downloadFile env cl url b w) = None \<longrightarrow> (\<exists>q. fetched evs = [(cl, q)] \<and> URL q = url))"
proof (cases "NewRequest env (if b then MethodGet0RTT env else MethodGet) url")
  case (Inl e)
  then have "snd (downloadFile env cl url b w) = extends w []" "fst (downloadFile env cl url b w) \<noteq> None"
    by (simp_all add: downloadFile_def Let_def)
  then show ?thesis by (intro exI [of _ "[]"]) simp
next
  case (Inr req)
  then have q: "URL req = url" "Method req = (if b then MethodGet0RTT env else MethodGet)"
    by (auto simp: NewRequest_def split: sum.splits)
  let ?p = "''/downloads'' @ Path req"
  show ?thesis
  proof (cases "RoundTrip_result env w cl req")
    case (Inl e)
    with Inr have "snd (downloadFile env cl url b w) = extends w [RoundTrip_ev cl req]"
      by (simp add: downloadFile_def Let_def RoundTrip_def emit_extends)
    with q show ?thesis by (intro exI [of _ "[RoundTrip_ev cl req]"]) simp
  next
    case rsp: (Inr rsp)
    show ?thesis
    proof (cases "Create_result env (extends w [RoundTrip_ev cl req]) ?p")
      case (Some e)
      with Inr rsp have "snd (downloadFile env cl url b w)
          = extends w [RoundTrip_ev cl req, Create_ev ?p, BodyClose_ev req]"
        by (simp add: downloadFile_def Let_def RoundTrip_def os_Create_def emit_extends)
      with q show ?thesis
        by (intro exI [of _ "[RoundTrip_ev cl req, Create_ev ?p, BodyClose_ev req]"]) simp
    next
      case None
      with Inr rsp have "snd (downloadFile env cl url b w)
          = extends w [RoundTrip_ev cl req, Create_ev ?p, Copy_ev ?p rsp, FileClose_ev ?p, BodyClose_ev req]"
        by (simp add: downloadFile_def Let_def RoundTrip_def os_Create_def io_Copy_def emit_extends)
      with q show ?thesis
        by (intro exI [of _ "[RoundTrip_ev cl req, Create_ev ?p, Copy_ev ?p rsp, FileClose_ev ?p, BodyClose_ev req]"]) simp
    qed
  qed
qed

lemma connect_once_effect:
  assumes "connect_once env url w = (res, w')"
  shows "\<exists>evs. trace w' = trace w @ evs \<and> allocated w' = Suc (allocated w)
           \<and> opened evs = [http09_conn (allocated w)]
           \<and> (\<exists>c. sequential Idle evs = Some c)
           \<and> (sequential Idle evs = Some Idle
              \<or> (\<exists>e r w1. res = Some e \<and> new_RoundTripper http09 tlsConf w = (r, w1)
                    \<and> downloadFile env r url False w1 = (Some e, w')))
           \<and> (res = None \<longrightarrow>
                closed evs = [http09_conn (allocated w)]
              \<and> (\<exists>q. fetched evs = [(http09_conn (allocated w), q)] \<and> URL q = url)
              \<and> sequential Idle evs = Some Idle)"
proof -
  let ?r = "http09_conn (allocated w)"
  let ?w1 = "extends (w\<lparr>allocated := Suc (allocated w)\<rparr>) [New_ev ?r]"
  have n: "new_RoundTripper http09 tlsConf w = (?r, ?w1)"
    by (simp add: new_RoundTripper_def http09_conn_def emit_extends Let_def)
  obtain evs where d: "snd (downloadFile env ?r url False ?w1) = extends ?w1 evs"
      and t: "list_all (transfer_ev env ?r [url] False) evs"
      and f: "fetched evs = [] \<or> (\<exists>q. fetched evs = [(?r, q)] \<and> URL q = url)"
      and ok: "fst (downloadFile env ?r url False ?w1) = None \<longrightarrow>
               (\<exists>q. fetched evs = [(?r, q)] \<and> URL q = url)"
    using downloadFile_extends [of env ?r url False ?w1] by (elim exE conjE) (rule that)
  from t have o: "opened evs = []" "closed evs = []"
    using transfer_no_open by blast+
  have s: "\<exists>c. sequential (Fresh ?r) evs = Some c"
    using f o sequential_quiet sequential_one_fetch by blast
  show ?thesis
  proof (cases "fst (downloadFile env ?r url False ?w1)")
    case (Some e)
    with assms n d have "w' = extends ?w1 evs"
      by (auto simp: connect_once_def split: prod.splits option.splits)
    moreover from Some assms n have "res = Some e"
        "downloadFile env ?r url False ?w1 = (Some e, w')"
      by (auto simp: connect_once_def split: prod.splits option.splits)
    with n have "\<exists>e r w1. res = Some e \<and> new_RoundTripper http09 tlsConf w = (r, w1)
                    \<and> downloadFile env r url False w1 = (Some e, w')"
      by blast
    ultimately show ?thesis using o s \<open>res = Some e\<close>
      by (intro exI [of _ "New_ev ?r # evs"]) simp
  next
    case None
    with ok obtain q where q: "fetched evs = [(?r, q)]" "URL q = url" by blast
    from None assms n d have w': "w' = extends ?w1 (evs @ [Close_ev ?r])"
      by (auto simp: connect_once_def Close_def emit_extends split: prod.splits option.splits)
    have "sequential (Fresh ?r) (evs @ [Close_ev ?r]) = Some Idle"
      using sequential_one_fetch [OF o q(1)] by (simp add: sequential_append)
    then show ?thesis using o q w'
      by (intro exI [of _ "New_ev ?r # evs @ [Close_ev ?r]"])
         (simp add: opened_append closed_append fetched_append)
  qed
qed

lemma multiconnect_success:
  "runMultiConnectTest env urls w = (None, w') \<Longrightarrow>
   \<exists>evs. trace w' = trace w @ evs \<and> allocated w' = allocated w + length urls
      \<and> opened evs = map http09_conn [allocated w ..< allocated w + length urls]
      \<and> closed evs = opened evs
      \<and> map (\<lambda>(r, q). (r, URL q)) (fetched evs) = zip (opened evs) urls
      \<and> sequential Idle evs = Some Idle"
proof (induction urls arbitrary: w)
  case Nil
  then show ?case by simp
next
  case (Cons url urls)
  from Cons.prems obtain w1 where c: "connect_once env url w = (None, w1)"
      and r: "runMultiConnectTest env urls w1 = (None, w')"
    by (auto split: prod.splits option.splits)
  from connect_once_effect [OF c] obtain evs1 q where e1:
      "trace w1 = trace w @ evs1" "allocated w1 = Suc (allocated w)"
      "opened evs1 = [http09_conn (allocated w)]" "closed evs1 = [http09_conn (allocated w)]"
      "fetched evs1 = [(http09_conn (allocated w), q)]" "URL q = url"
      "sequential Idle evs1 = Some Idle"
    by auto
  from Cons.IH [OF r] obtain evs2 where e2:
      "trace w' = trace w1 @ evs2" "allocated w' = allocated w1 + length urls"
      "opened evs2 = map http09_conn [allocated w1 ..< allocated w1 + length urls]"
      "closed evs2 = opened evs2"
      "map (\<lambda>(r, q). (r, URL q)) (fetched evs2) = zip (opened evs2) urls"
      "sequential Idle evs2 = Some Idle"
    by auto
  have "[allocated w ..< allocated w + length (url # urls)]
          = allocated w # [Suc (allocated w) ..< Suc (allocated w) + length urls]"
    by (simp add: upt_conv_Cons del: upt_Suc)
  then have u: "map http09_conn [allocated w ..< allocated w + length (url # urls)]
             = http09_conn (allocated w) # opened evs2"
    by (simp only: e2 e1 list.map)
  have "opened (evs1 @ evs2) = map http09_conn [allocated w ..< allocated w + length (url # urls)]"
    unfolding u by (simp add: opened_append e1)
  moreover have "closed (evs1 @ evs2) = opened (evs1 @ evs2)"
    by (simp add: opened_append closed_append e1 e2)
  moreover have "map (\<lambda>(r, q). (r, URL q)) (fetched (evs1 @ evs2)) = zip (opened (evs1 @ evs2)) (url # urls)"
    by (simp add: opened_append fetched_append e1 e2(5))
  moreover have "sequential Idle (evs1 @ evs2) = Some Idle"
    by (simp add: sequential_append e1 e2)
  moreover have "trace w' = trace w @ evs1 @ evs2" "allocated w' = allocated w + length (url # urls)"
    by (simp_all add: e1 e2)
  ultimately show ?case by blast
qed

lemma multiconnect_failure:
  "runMultiConnectTest env urls w = (Some e, w') \<Longrightarrow>
   \<exists>us u rest wk. urls = us @ u # rest \<and> runMultiConnectTest env us w = (None, wk)
      \<and> connect_once env u wk = (Some e, w')"
proof (induction urls arbitrary: w)
  case Nil
  then show ?case by simp
next
  case (Cons url urls)
  show ?case
  proof (cases "connect_once env url w")
    case (Pair r1 w1)
    show ?thesis
    proof (cases r1)
      case None
      with Pair Cons.prems have "runMultiConnectTest env urls w1 = (Some e, w')" by simp
      from Cons.IH [OF this] obtain us u rest wk where
        "urls = us @ u # rest" "runMultiConnectTest env us w1 = (None, wk)"
        "connect_once env u wk = (Some e, w')" by blast
      with Pair None show ?thesis
        by (intro exI [of _ "url # us"] exI [of _ u] exI [of _ rest] exI [of _ wk]) simp
    next
      case (Some e1)
      with Pair Cons.prems have "e1 = e" "w1 = w'" by simp_all
      with Pair Some show ?thesis
        by (intro exI [of _ "[]"] exI [of _ url] exI [of _ urls] exI [of _ w]) simp
    qed
  qed
qed

subsection \<open>Batches of goroutines\<close>

lemma task_step_effect:
  "task_for cl urls b t \<Longrightarrow>
   \<exists>evs. snd (task_step env t w) = extends w evs
      \<and> list_all (transfer_ev env cl urls b) evs
      \<and> task_for cl urls b (fst (task_step env t w))"
proof (cases t)
  case (Start c u f)
  assume "task_for cl urls b t"
  with Start have [simp]: "c = cl" "f = b" and u: "u \<in> set urls" by simp_all
  show ?thesis
  proof (cases "url_Parse env u")
    case (Inl e)
    with Start show ?thesis by (intro exI [of _ "[]"]) (simp add: NewRequest_def)
  next
    case (Inr p)
    let ?q = "\<lparr>Method = (if b then MethodGet0RTT env else MethodGet), URL = u, Path = p\<rparr>"
    from Inr Start u show ?thesis
      by (intro exI [of _ "[RoundTrip_ev cl ?q]"])
         (simp add: NewRequest_def RoundTrip_def emit_extends split: sum.splits)
  qed
next
  case (GotResponse q rsp)
  then show ?thesis
    by (intro exI [of _ "[Create_ev (''/downloads'' @ Path q)]"])
       (simp add: os_Create_def emit_extends split: option.splits)
next
  case (FileOpen q rsp)
  then show ?thesis
    by (intro exI [of _ "[Copy_ev (''/downloads'' @ Path q) rsp]"])
       (simp add: io_Copy_def emit_extends)
next
  case (ClosingFile e q)
  then show ?thesis
    by (intro exI [of _ "[FileClose_ev (''/downloads'' @ Path q)]"]) (simp add: emit_extends)
next
  case (ClosingBody e q)
  then show ?thesis
    by (intro exI [of _ "[BodyClose_ev q]"]) (simp add: emit_extends)
next
  case (Done e)
  then show ?thesis by (intro exI [of _ "[]"]) simp
qed

lemma task_step_left: "steps_left (fst (task_step env t w)) \<le> steps_left t - Suc 0"
  by (cases t) (auto simp: RoundTrip_def os_Create_def io_Copy_def split: sum.splits option.splits)

lemma returned_left: "returned t \<longleftrightarrow> steps_left t = 0"
  by (cases t) auto

lemma task_step_returned: "returned t \<Longrightarrow> task_step env t w = (t, w)"
  by (cases t) auto

lemma Go_step_length [simp]: "length (goroutines (fst (Go_step env i gw))) = length (goroutines (fst gw))"
  by (cases gw) (simp add: Go_step_def split: prod.splits)

lemma fold_Go_step_length [simp]:
  "length (goroutines (fst (fold (Go_step env) is gw))) = length (goroutines (fst gw))"
  by (induction "is" arbitrary: gw) auto

lemma Go_step_outside: "\<not> i < length (goroutines (fst gw)) \<Longrightarrow> Go_step env i gw = gw"
  by (cases gw) (simp add: Go_step_def)

lemma Go_step_nth:
  "i < length (goroutines (fst gw)) \<Longrightarrow>
   goroutines (fst (Go_step env i gw)) ! j =
     (if j = i then fst (task_step env (goroutines (fst gw) ! i) (snd gw)) else goroutines (fst gw) ! j)"
  by (cases gw) (simp add: Go_step_def split: prod.splits)

lemma list_all_update: "list_all P xs \<Longrightarrow> P y \<Longrightarrow> list_all P (xs[i := y])"
  by (induction xs arbitrary: i) (auto split: nat.splits)

lemma Go_step_batch_inv:
  assumes "batch_inv env cl urls b w gw"
  shows "batch_inv env cl urls b w (Go_step env i gw)"
proof (cases "i < length (goroutines (fst gw))")
  case False
  with assms show ?thesis by (simp add: Go_step_outside)
next
  case True
  obtain g w1 where gw: "gw = (g, w1)" by (cases gw)
  from assms gw obtain evs where all: "list_all (task_for cl urls b) (goroutines g)"
      and w1: "w1 = extends w evs" and evs: "list_all (transfer_ev env cl urls b) evs"
    by (auto simp: batch_inv_def)
  from all True gw have "task_for cl urls b (goroutines g ! i)"
    by (simp add: list_all_length)
  from task_step_effect [OF this, of env w1] obtain evs1 where
      s: "snd (task_step env (goroutines g ! i) w1) = extends w1 evs1"
      and e1: "list_all (transfer_ev env cl urls b) evs1"
      and t: "task_for cl urls b (fst (task_step env (goroutines g ! i) w1))"
    by blast
  from s w1 have "snd (task_step env (goroutines g ! i) w1) = extends w (evs @ evs1)" by simp
  moreover have "list_all (transfer_ev env cl urls b) (evs @ evs1)" using evs e1 by simp
  ultimately show ?thesis using True gw all t
    unfolding batch_inv_def
    by (auto simp: Go_step_def list_all_update split: prod.splits)
qed

lemma fold_Go_step_batch_inv:
  "batch_inv env cl urls b w gw \<Longrightarrow> batch_inv env cl urls b w (fold (Go_step env) is gw)"
  by (induction "is" arbitrary: gw) (auto simp: Go_step_batch_inv)

lemma launch_batch_inv: "batch_inv env cl urls b w (launch cl urls b, w)"
  unfolding batch_inv_def
  by (auto simp: launch_def list_all_iff intro: exI [of _ "[]"])

lemma downloadFiles_extends:
  "\<exists>evs. snd (downloadFiles env cl urls b w) = extends w evs
      \<and> list_all (transfer_ev env cl urls b) evs"
proof -
  have "batch_inv env cl urls b w (Wait env (launch cl urls b, w))"
    unfolding Wait_def by (rule fold_Go_step_batch_inv) (rule launch_batch_inv)
  then show ?thesis
    by (auto simp: batch_inv_def downloadFiles_def split: prod.splits)
qed

lemma failure_None: "list_all (\<lambda>t. failure t = None) xs \<longleftrightarrow> (\<forall>e. Done (Some e) \<notin> set xs)"
proof (induction xs)
  case Nil
  show ?case by simp
next
  case (Cons t xs)
  have "failure t = None \<longleftrightarrow> (\<forall>e. Done (Some e) \<noteq> t)"
    by (cases t; cases "failure t") auto
  with Cons show ?case by auto
qed

lemma Done_update:
  "i < length xs \<Longrightarrow> \<not> returned (xs ! i) \<Longrightarrow>
   Done r \<in> set (xs[i := t]) \<longleftrightarrow> Done r \<in> set xs \<or> t = Done r"
proof (induction xs arbitrary: i)
  case Nil
  then show ?case by simp
next
  case (Cons x xs)
  then show ?case by (cases i) auto
qed

lemma record_err_fail:
  "\<not> returned t \<Longrightarrow>
   record_err t (Done (Some e)) ge = (case ge of None \<Rightarrow> Some e | Some e0 \<Rightarrow> Some e0)"
  by (simp add: record_err_def)

lemma record_err_other:
  "\<forall>e. t' \<noteq> Done (Some e) \<Longrightarrow> record_err t t' ge = ge"
  by (cases t') (auto simp: record_err_def split: option.splits)

lemma Go_step_returned:
  "i < length (goroutines (fst gw)) \<Longrightarrow> returned (goroutines (fst gw) ! i) \<Longrightarrow>
   Go_step env i gw = gw"
  by (cases gw) (simp add: Go_step_def task_step_returned record_err_def)

lemma Go_step_err_inv:
  assumes "err_inv (fst gw)"
  shows "err_inv (fst (Go_step env i gw))"
proof (cases "i < length (goroutines (fst gw)) \<and> \<not> returned (goroutines (fst gw) ! i)")
  case False
  then have "Go_step env i gw = gw"
    using Go_step_outside Go_step_returned by blast
  with assms show ?thesis by simp
next
  case True
  obtain g w where gw: "gw = (g, w)" by (cases gw)
  let ?t = "goroutines g ! i"
  from True gw have i: "i < length (goroutines g)" and nr: "\<not> returned ?t" by simp_all
  obtain t' w' where st: "task_step env ?t w = (t', w')" by (cases "task_step env ?t w")
  let ?g' = "\<lparr>goroutines = (goroutines g)[i := t'], group_err = record_err ?t t' (group_err g)\<rparr>"
  from gw st i have step: "fst (Go_step env i gw) = ?g'"
    by (simp add: Go_step_def)
  note D = Done_update [OF i nr]
  from assms gw have inv:
    "case group_err g of None \<Rightarrow> \<forall>e. Done (Some e) \<notin> set (goroutines g)
                       | Some e \<Rightarrow> Done (Some e) \<in> set (goroutines g)"
    by (simp add: err_inv_def failure_None split: option.splits)
  consider (fail) e where "t' = Done (Some e)" | (other) "\<forall>e. t' \<noteq> Done (Some e)"
    by blast
  then have "case group_err ?g' of None \<Rightarrow> \<forall>e. Done (Some e) \<notin> set (goroutines ?g')
                       | Some e \<Rightarrow> Done (Some e) \<in> set (goroutines ?g')"
  proof cases
    case fail
    with inv nr show ?thesis
      by (cases "group_err g") (simp_all add: record_err_fail D)
  next
    case other
    with inv show ?thesis
      by (cases "group_err g") (simp_all add: record_err_other D)
  qed
  then show ?thesis
    unfolding step by (simp add: err_inv_def failure_None split: option.splits)
qed

lemma fold_Go_step_err_inv:
  "err_inv (fst gw) \<Longrightarrow> err_inv (fst (fold (Go_step env) is gw))"
  by (induction "is" arbitrary: gw) (auto simp: Go_step_err_inv)

lemma launch_err_inv: "err_inv (launch cl urls b)"
  by (simp add: err_inv_def launch_def list_all_iff)

text \<open>Every goroutine has returned when the schedule is through.\<close>

lemma Go_step_left:
  "j < length (goroutines (fst gw)) \<Longrightarrow>
   steps_left (goroutines (fst (Go_step env i gw)) ! j)
     \<le> steps_left (goroutines (fst gw) ! j) - (if j = i then 1 else 0)"
  by (cases "i < length (goroutines (fst gw))")
     (auto simp: Go_step_nth Go_step_outside task_step_left)

lemma fold_Go_step_left:
  "j < length (goroutines (fst gw)) \<Longrightarrow>
   steps_left (goroutines (fst (fold (Go_step env) is gw)) ! j)
     \<le> steps_left (goroutines (fst gw) ! j) - count_list is j"
proof (induction "is" arbitrary: gw)
  case Nil
  then show ?case by simp
next
  case (Cons i "is")
  have "steps_left (goroutines (fst (fold (Go_step env) is (Go_step env i gw))) ! j)
          \<le> steps_left (goroutines (fst (Go_step env i gw)) ! j) - count_list is j"
    using Cons.prems by (intro Cons.IH) simp
  also have "\<dots> \<le> (steps_left (goroutines (fst gw) ! j) - (if j = i then 1 else 0)) - count_list is j"
    using Go_step_left [OF Cons.prems, of env i] by (intro diff_le_mono)
  finally show ?case by (auto simp: algebra_simps)
qed

lemma steps_left_le: "steps_left t \<le> 5"
  by (cases t) auto

lemma count_list_concat_replicate:
  "j < n \<Longrightarrow> count_list (concat (map (replicate k) [0..<n])) j = k"
proof (induction n)
  case 0
  then show ?case by simp
next
  case (Suc n)
  have c: "count_list (replicate k m) j = (if m = j then k else 0)" for m
    by (induction k) auto
  have "j \<ge> n \<Longrightarrow> count_list (concat (map (replicate k) [0..<n])) j = 0"
    by (induction n) (auto simp: c)
  with Suc show ?case by (cases "j < n") (auto simp: c)
qed

lemma Wait_returned:
  "list_all returned (goroutines (fst (Wait env gw)))"
proof -
  let ?n = "length (goroutines (fst gw))"
  let ?is = "schedule env (snd gw) @ concat (map (replicate 5) [0..<?n])"
  have "returned (goroutines (fst (fold (Go_step env) ?is gw)) ! j)" if "j < ?n" for j
  proof -
    have "count_list ?is j \<ge> 5"
      using that by (simp add: count_list_concat_replicate)
    moreover have "steps_left (goroutines (fst gw) ! j) \<le> 5" by (rule steps_left_le)
    ultimately have "steps_left (goroutines (fst gw) ! j) - count_list ?is j = 0" by simp
    with fold_Go_step_left [OF that, of env ?is] show ?thesis
      by (simp add: returned_left)
  qed
  then show ?thesis
    by (simp add: Wait_def list_all_length)
qed

text \<open>A batch of one URL is \<open>downloadFile\<close>; a batch of none does nothing.\<close>

lemma fold_Go_step_empty:
  "goroutines (fst gw) = [] \<Longrightarrow> fold (Go_step env) is gw = gw"
  by (induction "is") (auto simp: Go_step_outside)

lemma downloadFiles_Nil: "downloadFiles env cl [] b w = (None, w)"
  by (simp add: downloadFiles_def Wait_def fold_Go_step_empty launch_def)

lemma fold_Go_step_single:
  "length (goroutines (fst gw)) = 1 \<Longrightarrow>
   fold (Go_step env) is gw = (Go_step env 0 ^^ count_list is 0) gw"
proof (induction "is" arbitrary: gw)
  case Nil
  show ?case by simp
next
  case (Cons i "is")
  show ?case
  proof (cases "i = 0")
    case True
    have "length (goroutines (fst (Go_step env 0 gw))) = 1" using Cons.prems by simp
    from Cons.IH [OF this] True show ?thesis by (simp add: funpow_swap1)
  next
    case False
    with Cons.prems have "Go_step env i gw = gw" by (intro Go_step_outside) simp
    with Cons False show ?thesis by simp
  qed
qed

lemma five_steps:
  "(Go_step env 0 ^^ 5) (launch cl [url] b, w) =
     (\<lparr>goroutines = [Done (fst (downloadFile env cl url b w))],
       group_err = fst (downloadFile env cl url b w)\<rparr>, snd (downloadFile env cl url b w))"
  by (simp add: eval_nat_numeral launch_def Go_step_def downloadFile_def record_err_def Let_def
        RoundTrip_def os_Create_def io_Copy_def split: sum.splits option.splits)

lemma funpow_fixpoint: "f x = x \<Longrightarrow> (f ^^ n) x = x"
  by (induction n) auto

lemma downloadFiles_single: "downloadFiles env cl [url] b w = downloadFile env cl url b w"
proof -
  let ?gw = "(launch cl [url] b, w)"
  let ?end = "(Go_step env 0 ^^ 5) ?gw"
  have one: "length (goroutines (fst ?gw)) = 1" by (simp add: launch_def)
  then have one': "length (goroutines (launch cl [url] b)) = 1" by simp
  have c: "count_list (schedule env w @ concat (map (replicate 5) [0..<1])) 0
             = count_list (schedule env w) 0 + 5"
    using count_list_concat_replicate [of 0 1 5] by simp
  have "Go_step env 0 ?end = ?end"
    unfolding five_steps by (intro Go_step_returned) simp_all
  then have fp: "(Go_step env 0 ^^ count_list (schedule env w) 0) ?end = ?end"
    by (rule funpow_fixpoint)
  have "Wait env ?gw = (Go_step env 0 ^^ (count_list (schedule env w) 0 + 5)) ?gw"
    unfolding Wait_def fst_conv snd_conv c [symmetric] one'
    by (rule fold_Go_step_single [OF one])
  also have "\<dots> = (Go_step env 0 ^^ count_list (schedule env w) 0) ?end"
    by (simp only: funpow_add o_apply)
  finally have "Wait env ?gw = ?end"
    using fp by simp
  then show ?thesis
    by (simp add: downloadFiles_def five_steps)
qed

lemma fetched_urls_append [simp]: "fetched_urls (xs @ ys) = fetched_urls xs @ fetched_urls ys"
  by (simp add: fetched_urls_def fetched_append)

lemma task_step_count:
  "\<exists>evs. snd (task_step env t w) = extends w evs
      \<and> mset (fetched_urls evs) + owed env (fst (task_step env t w)) = owed env t"
proof (cases t)
  case (Start c u f)
  show ?thesis
  proof (cases "url_Parse env u")
    case (Inl e)
    with Start show ?thesis
      by (intro exI [of _ "[]"]) (simp add: NewRequest_def parses_def fetched_urls_def)
  next
    case (Inr p)
    let ?q = "\<lparr>Method = (if f then MethodGet0RTT env else MethodGet), URL = u, Path = p\<rparr>"
    from Inr Start show ?thesis
      by (intro exI [of _ "[RoundTrip_ev c ?q]"])
         (simp add: NewRequest_def RoundTrip_def emit_extends parses_def fetched_urls_def
            split: sum.splits)
  qed
next
  case (GotResponse q rsp)
  then show ?thesis
    by (intro exI [of _ "[Create_ev (''/downloads'' @ Path q)]"])
       (simp add: os_Create_def emit_extends fetched_urls_def split: option.splits)
next
  case (FileOpen q rsp)
  then show ?thesis
    by (intro exI [of _ "[Copy_ev (''/downloads'' @ Path q) rsp]"])
       (simp add: io_Copy_def emit_extends fetched_urls_def)
next
  case (ClosingFile e q)
  then show ?thesis
    by (intro exI [of _ "[FileClose_ev (''/downloads'' @ Path q)]"])
       (simp add: emit_extends fetched_urls_def)
next
  case (ClosingBody e q)
  then show ?thesis
    by (intro exI [of _ "[BodyClose_ev q]"]) (simp add: emit_extends fetched_urls_def)
next
  case (Done e)
  then show ?thesis by (intro exI [of _ "[]"]) (simp add: fetched_urls_def)
qed

lemma owed_update:
  "i < length ts \<Longrightarrow>
   sum_list (map (owed env) (ts[i := t])) + owed env (ts ! i)
     = sum_list (map (owed env) ts) + owed env t"
proof (induction ts arbitrary: i)
  case Nil
  then show ?case by simp
next
  case (Cons a ts)
  then show ?case by (cases i) (auto simp: ac_simps)
qed

lemma Go_step_count_inv:
  assumes "count_inv env urls w gw"
  shows "count_inv env urls w (Go_step env i gw)"
proof (cases "i < length (goroutines (fst gw))")
  case False
  with assms show ?thesis by (simp add: Go_step_outside)
next
  case True
  obtain g w1 where gw: "gw = (g, w1)" by (cases gw)
  from assms gw obtain evs where w1: "w1 = extends w evs"
      and n: "mset (fetched_urls evs) + sum_list (map (owed env) (goroutines g))
                = mset (filter (parses env) urls)"
    by (auto simp: count_inv_def)
  let ?t = "goroutines g ! i"
  from task_step_count [of env ?t w1] obtain evs1 where
      s: "snd (task_step env ?t w1) = extends w1 evs1"
      and c: "mset (fetched_urls evs1) + owed env (fst (task_step env ?t w1)) = owed env ?t"
    by blast
  from True gw have i: "i < length (goroutines g)" by simp
  let ?ts' = "(goroutines g)[i := fst (task_step env ?t w1)]"
  have "mset (fetched_urls (evs @ evs1)) + sum_list (map (owed env) ?ts') + owed env ?t
          = mset (fetched_urls evs) + sum_list (map (owed env) (goroutines g))
            + (mset (fetched_urls evs1) + owed env (fst (task_step env ?t w1)))"
    using owed_update [OF i, of env "fst (task_step env ?t w1)"] by (simp add: ac_simps)
  with c n have "mset (fetched_urls (evs @ evs1)) + sum_list (map (owed env) ?ts')
          = mset (filter (parses env) urls)"
    by simp
  moreover from s w1 have "snd (task_step env ?t w1) = extends w (evs @ evs1)" by simp
  ultimately show ?thesis using gw i
    unfolding count_inv_def
    by (auto simp: Go_step_def split: prod.splits)
qed

lemma launch_count_inv: "count_inv env urls w (launch cl urls b, w)"
proof -
  have "sum_list (map (owed env) (map (\<lambda>url. Start cl url b) us)) = mset (filter (parses env) us)" for us
    by (induction us) auto
  then show ?thesis
    unfolding count_inv_def
    by (intro exI [of _ "[]"]) (simp add: launch_def fetched_urls_def)
qed

lemma owed_returned: "list_all returned ts \<Longrightarrow> sum_list (map (owed env) ts) = {#}"
proof (induction ts)
  case Nil
  show ?case by simp
next
  case (Cons t ts)
  then show ?case by (cases t) auto
qed

lemma downloadFiles_Wait:
  "fst (downloadFiles env cl urls b w) = group_err (fst (Wait env (launch cl urls b, w)))"
  "snd (downloadFiles env cl urls b w) = snd (Wait env (launch cl urls b, w))"
  by (simp_all add: downloadFiles_def split: prod.splits)

lemma downloadFiles_fetches:
  "mset (fetched_urls (delta w (snd (downloadFiles env cl urls b w)))) = mset (filter (parses env) urls)"
proof -
  have "count_inv env urls w (fold (Go_step env) is (launch cl urls b, w))" for "is"
    by (induction "is" rule: rev_induct) (auto simp: launch_count_inv Go_step_count_inv)
  then have "count_inv env urls w (Wait env (launch cl urls b, w))"
    unfolding Wait_def by blast
  then obtain evs where "snd (Wait env (launch cl urls b, w)) = extends w evs"
      "mset (fetched_urls evs) + sum_list (map (owed env) (goroutines (fst (Wait env (launch cl urls b, w)))))
         = mset (filter (parses env) urls)"
    by (auto simp: count_inv_def)
  then show ?thesis
    using owed_returned [OF Wait_returned, of env env "(launch cl urls b, w)"]
    by (simp add: downloadFiles_Wait)
qed

subsection \<open>The strategies\<close>

lemma spec_plain_transfer_effect:
  "\<exists>evs. snd (spec_plain_transfer env v urls w) =
            extends (w\<lparr>allocated := Suc (allocated w)\<rparr>)
              (New_ev \<lparr>ident = allocated w, kind = v, TLSClientConfig = tlsConf\<rparr> # evs @
               [Close_ev \<lparr>ident = allocated w, kind = v, TLSClientConfig = tlsConf\<rparr>])
      \<and> list_all (transfer_ev env \<lparr>ident = allocated w, kind = v, TLSClientConfig = tlsConf\<rparr> urls False) evs
      \<and> mset (fetched_urls evs) = mset (filter (parses env) urls)"
proof -
  let ?r = "\<lparr>ident = allocated w, kind = v, TLSClientConfig = tlsConf\<rparr>"
  let ?w1 = "extends (w\<lparr>allocated := Suc (allocated w)\<rparr>) [New_ev ?r]"
  have n: "new_RoundTripper v tlsConf w = (?r, ?w1)"
    by (simp add: new_RoundTripper_def emit_extends Let_def)
  obtain evs where d: "snd (downloadFiles env ?r urls False ?w1) = extends ?w1 evs"
      and t: "list_all (transfer_ev env ?r urls False) evs"
    using downloadFiles_extends [of env ?r urls False ?w1] by (elim exE conjE) (rule that)
  have "delta ?w1 (snd (downloadFiles env ?r urls False ?w1)) = evs"
    unfolding d by (rule delta_extends)
  with downloadFiles_fetches [of ?w1 env ?r urls False]
  have m: "mset (fetched_urls evs) = mset (filter (parses env) urls)" by simp
  from n have "snd (spec_plain_transfer env v urls w)
      = extends (snd (downloadFiles env ?r urls False ?w1)) [Close_ev ?r]"
    by (simp add: spec_plain_transfer_def Close_def emit_extends split: prod.splits)
  then have "snd (spec_plain_transfer env v urls w)
      = extends (w\<lparr>allocated := Suc (allocated w)\<rparr>) (New_ev ?r # evs @ [Close_ev ?r])"
    unfolding d by simp
  with t m show ?thesis by blast
qed


lemma dispatch_http3: "runTestcase env ''http3'' urls w = spec_plain_transfer env http3 urls w"
  by (simp add: runTestcase_def spec_plain_transfer_def split: prod.splits)

lemma dispatch_http09:
  "runTestcase env ''handshake'' urls w = spec_plain_transfer env http09 urls w"
  "runTestcase env ''transfer'' urls w = spec_plain_transfer env http09 urls w"
  "runTestcase env ''retry'' urls w = spec_plain_transfer env http09 urls w"
  by (simp_all add: runTestcase_def spec_plain_transfer_def split: prod.splits)

lemma dispatch_strategies:
  "runTestcase env ''multiconnect'' urls w = runMultiConnectTest env urls w"
  "runTestcase env ''versionnegotiation'' urls w = runVersionNegotiationTest env urls w"
  "runTestcase env ''resumption'' urls w = runResumptionTest env urls False w"
  "runTestcase env ''zerortt'' urls w = runResumptionTest env urls True w"
  by (simp_all add: runTestcase_def)

lemma dispatch_unknown:
  "testcase \<notin> {''http3'', ''handshake'', ''transfer'', ''retry'', ''multiconnect'',
                 ''versionnegotiation'', ''resumption'', ''zerortt''} \<longrightarrow>
   runTestcase env testcase urls w = (Some errUnsupported, w)"
  by (simp add: runTestcase_def)

lemma task_step_Close_result [simp]: "task_step (env\<lparr>Close_result := c\<rparr>) t w = task_step env t w"
  by (cases t) (simp_all add: NewRequest_def RoundTrip_def os_Create_def io_Copy_def split: sum.splits)

lemma Go_step_Close_result [simp]: "Go_step (env\<lparr>Close_result := c\<rparr>) = Go_step env"
  by (intro ext) (simp add: Go_step_def split: prod.splits)

lemma downloadFiles_Close_result [simp]:
  "downloadFiles (env\<lparr>Close_result := c\<rparr>) cl urls b w = downloadFiles env cl urls b w"
  by (simp add: downloadFiles_def Wait_def)

lemma downloadFile_Close_result [simp]:
  "downloadFile (env\<lparr>Close_result := c\<rparr>) cl url b w = downloadFile env cl url b w"
  by (simp only: downloadFiles_single [symmetric] downloadFiles_Close_result)

lemma snd_Close [simp]: "snd (Close env r w) = emit (Close_ev r) w"
  by (simp add: Close_def)




lemma runMultiConnectTest_append:
  "runMultiConnectTest env us w = (None, wk) \<Longrightarrow>
   runMultiConnectTest env (us @ vs) w = runMultiConnectTest env vs wk"
  by (induction us arbitrary: w) (auto split: prod.splits option.splits)


lemma downloadFiles_delta:
  "list_all (transfer_ev env cl urls b) (delta w (snd (downloadFiles env cl urls b w)))
   \<and> snd (downloadFiles env cl urls b w) = extends w (delta w (snd (downloadFiles env cl urls b w)))"
  using downloadFiles_extends [of env cl urls b w] by auto

lemma downloadFile_delta:
  "list_all (transfer_ev env cl [url] b) (delta w (snd (downloadFile env cl url b w)))
   \<and> snd (downloadFile env cl url b w) = extends w (delta w (snd (downloadFile env cl url b w)))"
  using downloadFiles_delta [of env cl "[url]" b w] by (simp add: downloadFiles_single)

subsection \<open>The life of the RoundTrippers\<close>

lemma lifecycle_append:
  "lifecycle seen live (xs @ ys) =
     (case lifecycle seen live xs of None \<Rightarrow> None | Some (s, l) \<Rightarrow> lifecycle s l ys)"
  by (induction seen live xs rule: lifecycle.induct) auto

lemma lifecycle_transfer:
  "list_all (transfer_ev env cl urls b) evs \<Longrightarrow> cl \<in> set live \<Longrightarrow>
   lifecycle seen live evs = Some (seen, live)"
  by (induction seen live evs rule: lifecycle.induct) auto

lemma lifecycle_meaning:
  "lifecycle seen live evs = Some (seen', live') \<Longrightarrow>
   distinct seen \<Longrightarrow> distinct live \<Longrightarrow> set live \<subseteq> set seen \<Longrightarrow>
   seen' = rev (opened evs) @ seen \<and> distinct seen' \<and> distinct live' \<and> set live' \<subseteq> set seen'
   \<and> mset (closed evs) + mset live' = mset (opened evs) + mset live"
proof (induction seen live evs rule: lifecycle.induct)
  case (1 seen live)
  then show ?case by simp
next
  case (2 seen live r evs)
  then show ?case by (auto split: if_splits)
next
  case (3 seen live r q evs)
  then show ?case by (auto split: if_splits)
next
  case (4 seen live r evs)
  from 4 have r: "r \<in> set live" and
      run: "lifecycle seen (removeAll r live) evs = Some (seen', live')"
    by (auto split: if_splits)
  have d: "distinct (removeAll r live)" "set (removeAll r live) \<subseteq> set seen"
    using 4 by (auto simp: distinct_removeAll)
  from "4.prems"(3) r have m: "mset live = add_mset r (mset (removeAll r live))"
    by (simp add: distinct_remove1_removeAll [symmetric])
  from "4.IH" [OF r run "4.prems"(2) d] show ?case
    by (auto simp: m)
qed auto

lemma sequential_lifecycle:
  "sequential c evs = Some c' \<Longrightarrow> set (opened evs) \<inter> set seen = {} \<Longrightarrow> distinct (opened evs) \<Longrightarrow>
   lifecycle seen (live_of c) evs = Some (rev (opened evs) @ seen, live_of c')"
proof (induction c evs arbitrary: seen rule: sequential.induct)
  case (1 c)
  then show ?case by simp
next
  case (2 c r evs)
  then show ?case by (auto split: if_splits)
next
  case (3 c r q evs)
  then show ?case by (auto split: if_splits)
next
  case (4 c r evs)
  then show ?case by (auto split: if_splits)
qed auto

lemma new_RoundTripper_extends:
  "new_RoundTripper k c w =
     (\<lparr>ident = allocated w, kind = k, TLSClientConfig = c\<rparr>,
      extends (w\<lparr>allocated := Suc (allocated w)\<rparr>)
        [New_ev \<lparr>ident = allocated w, kind = k, TLSClientConfig = c\<rparr>])"
  by (simp add: new_RoundTripper_def Let_def emit_extends)

lemma delta_trace: "trace w' = trace w @ evs \<Longrightarrow> delta w w' = evs"
  by (simp add: delta_def)

lemma spec_plain_transfer_lifecycle:
  "lifecycle [] [] (delta w (snd (spec_plain_transfer env v urls w)))
     = Some ([\<lparr>ident = allocated w, kind = v, TLSClientConfig = tlsConf\<rparr>], [])"
proof -
  let ?r = "\<lparr>ident = allocated w, kind = v, TLSClientConfig = tlsConf\<rparr>"
  from spec_plain_transfer_effect [of env v urls w] obtain evs where
      s: "snd (spec_plain_transfer env v urls w)
            = extends (w\<lparr>allocated := Suc (allocated w)\<rparr>) (New_ev ?r # evs @ [Close_ev ?r])"
      and t: "list_all (transfer_ev env ?r urls False) evs"
    by blast
  have "delta w (snd (spec_plain_transfer env v urls w)) = New_ev ?r # evs @ [Close_ev ?r]"
    unfolding s by (rule delta_trace) simp
  moreover have "lifecycle [?r] [?r] evs = Some ([?r], [?r])"
    using t by (rule lifecycle_transfer) simp
  ultimately show ?thesis
    by (simp add: lifecycle_append)
qed

lemma versionnegotiation_lifecycle:
  "\<exists>seen live. lifecycle [] [] (delta w (snd (runVersionNegotiationTest env urls w))) = Some (seen, live)
      \<and> length live \<le> 1"
proof (cases "length urls = 1")
  case False
  then have "delta w (snd (runVersionNegotiationTest env urls w)) = []"
    by (simp add: runVersionNegotiationTest_def delta_def)
  then show ?thesis by simp
next
  case True
  let ?r = "\<lparr>ident = allocated w, kind = http09, TLSClientConfig = nil_config\<rparr>"
  let ?w1 = "extends (w\<lparr>SupportedVersions := [0x1a2a3a4a], allocated := Suc (allocated w)\<rparr>) [New_ev ?r]"
  have n: "new_RoundTripper http09 nil_config (w\<lparr>SupportedVersions := [0x1a2a3a4a]\<rparr>) = (?r, ?w1)"
    by (simp add: new_RoundTripper_extends)
  from downloadFile_extends [of env ?r "urls ! 0" False ?w1] obtain evs where
      s: "snd (downloadFile env ?r (urls ! 0) False ?w1) = extends ?w1 evs"
      and t: "list_all (transfer_ev env ?r [urls ! 0] False) evs"
    by blast
  from True n have "snd (runVersionNegotiationTest env urls w)
      = snd (downloadFile env ?r (urls ! 0) False ?w1)"
    by (simp add: runVersionNegotiationTest_def split: prod.splits option.splits)
  then have "trace (snd (runVersionNegotiationTest env urls w)) = trace w @ New_ev ?r # evs"
    by (simp add: s)
  then have "delta w (snd (runVersionNegotiationTest env urls w)) = New_ev ?r # evs"
    by (rule delta_trace)
  moreover have "lifecycle [?r] [?r] evs = Some ([?r], [?r])"
    using t by (rule lifecycle_transfer) simp
  ultimately show ?thesis by simp
qed

lemma resumption_lifecycle:
  "\<exists>seen live. lifecycle [] [] (delta w (snd (runResumptionTest env urls b w))) = Some (seen, live)
      \<and> length live \<le> 1
      \<and> (live = [] \<or> fst (runResumptionTest env urls b w) \<noteq> None \<and> length seen = 1)
      \<and> (live = []
         \<or> (\<exists>r1 w1 e. new_RoundTripper http09 tlsConf
                          (emit (NewLRUClientSessionCache_ev 1) (w\<lparr>ClientSessionCache := Some 1\<rparr>))
                        = (r1, w1)
               \<and> downloadFile env r1 (urls ! 0) False w1
                   = (Some e, snd (runResumptionTest env urls b w))
               \<and> fst (runResumptionTest env urls b w) = Some e))"
proof (cases "length urls < 2")
  case True
  then have "delta w (snd (runResumptionTest env urls b w)) = []"
    by (simp add: runResumptionTest_def delta_def)
  then show ?thesis by simp
next
  case False
  let ?r1 = "http09_conn (allocated w)"
  let ?r2 = "http09_conn (Suc (allocated w))"
  define w1 where "w1 = extends (w\<lparr>ClientSessionCache := Some 1, allocated := Suc (allocated w)\<rparr>)
               [NewLRUClientSessionCache_ev 1, New_ev ?r1]"
  have n1: "new_RoundTripper http09 tlsConf
              (emit (NewLRUClientSessionCache_ev 1) (w\<lparr>ClientSessionCache := Some 1\<rparr>)) = (?r1, w1)"
    by (simp add: w1_def new_RoundTripper_extends emit_extends http09_conn_def extends_def)
  have tw1: "trace w1 = trace w @ [NewLRUClientSessionCache_ev 1, New_ev ?r1]"
      and aw1: "allocated w1 = Suc (allocated w)"
    by (simp_all add: w1_def)
  define d1 where "d1 = downloadFiles env ?r1 (take 1 urls) False w1"
  from downloadFiles_extends [of env ?r1 "take 1 urls" False w1] obtain e1 where
      s1: "snd d1 = extends w1 e1"
      and t1: "list_all (transfer_ev env ?r1 (take 1 urls) False) e1"
    unfolding d1_def by blast
  have l1: "lifecycle [?r1] [?r1] e1 = Some ([?r1], [?r1])"
    using t1 by (rule lifecycle_transfer) simp
  show ?thesis
  proof (cases "fst d1")
    case (Some err)
    with False n1 have run: "runResumptionTest env urls b w = (Some err, snd d1)"
      by (cases d1) (simp add: runResumptionTest_def d1_def)
    from False have "take 1 urls = [urls ! 0]"
      by (cases urls) auto
    then have "d1 = downloadFile env ?r1 (urls ! 0) False w1"
      by (simp add: d1_def downloadFiles_single)
    with Some have "downloadFile env ?r1 (urls ! 0) False w1 = (Some err, snd d1)"
      by (simp add: prod_eq_iff)
    with n1 run have tie: "\<exists>r1 w1 e. new_RoundTripper http09 tlsConf
                          (emit (NewLRUClientSessionCache_ev 1) (w\<lparr>ClientSessionCache := Some 1\<rparr>))
                        = (r1, w1)
               \<and> downloadFile env r1 (urls ! 0) False w1
                   = (Some e, snd (runResumptionTest env urls b w))
               \<and> fst (runResumptionTest env urls b w) = Some e"
      by (intro exI [of _ ?r1] exI [of _ w1] exI [of _ err]) simp
    from run have r1: "snd (runResumptionTest env urls b w) = snd d1"
        "fst (runResumptionTest env urls b w) = Some err"
      by simp_all
    have "trace (snd d1) = trace w @ [NewLRUClientSessionCache_ev 1, New_ev ?r1] @ e1"
      by (simp add: s1 tw1)
    then have "delta w (snd d1) = [NewLRUClientSessionCache_ev 1, New_ev ?r1] @ e1"
      by (rule delta_trace)
    with l1 have lc: "lifecycle [] [] (delta w (snd (runResumptionTest env urls b w)))
        = Some ([?r1], [?r1])"
      by (simp add: r1)
    have "fst (runResumptionTest env urls b w) \<noteq> None \<and> length [?r1] = 1"
      by (simp add: r1)
    with lc tie show ?thesis
      by (intro exI [of _ "[?r1]"] exI [of _ "[?r1]"] conjI disjI2) simp_all
  next
    case None
    define w4 where "w4 = extends ((snd d1)\<lparr>allocated := Suc (Suc (allocated w))\<rparr>)
                            [Close_ev ?r1, New_ev ?r2]"
    have a2: "allocated (snd d1) = Suc (allocated w)"
      by (simp add: s1 aw1)
    have n2: "new_RoundTripper http09 tlsConf (emit (Close_ev ?r1) (snd d1)) = (?r2, w4)"
      by (simp add: w4_def new_RoundTripper_extends emit_extends http09_conn_def a2 extends_def)
    have tw4: "trace w4 = trace w @ [NewLRUClientSessionCache_ev 1, New_ev ?r1] @ e1
                 @ [Close_ev ?r1, New_ev ?r2]"
      by (simp add: w4_def s1 tw1)
    define d2 where "d2 = downloadFiles env ?r2 (drop 1 urls) b w4"
    from downloadFiles_extends [of env ?r2 "drop 1 urls" b w4] obtain e2 where
        s2: "snd d2 = extends w4 e2"
        and t2: "list_all (transfer_ev env ?r2 (drop 1 urls) b) e2"
      unfolding d2_def by blast
    have l2: "lifecycle [?r2, ?r1] [?r2] e2 = Some ([?r2, ?r1], [?r2])"
      using t2 by (rule lifecycle_transfer) simp
    from False n1 None n2 have "snd (runResumptionTest env urls b w) = emit (Close_ev ?r2) (snd d2)"
      by (cases d1; cases d2) (simp add: runResumptionTest_def Close_def d1_def d2_def)
    moreover have "trace (emit (Close_ev ?r2) (snd d2))
        = trace w @ [NewLRUClientSessionCache_ev 1, New_ev ?r1] @ e1 @ [Close_ev ?r1, New_ev ?r2] @ e2
            @ [Close_ev ?r2]"
      by (simp add: s2 tw4 emit_extends)
    ultimately have "delta w (snd (runResumptionTest env urls b w))
        = [NewLRUClientSessionCache_ev 1, New_ev ?r1] @ e1 @ [Close_ev ?r1, New_ev ?r2] @ e2
            @ [Close_ev ?r2]"
      by (simp only: delta_trace)
    moreover have "?r2 \<noteq> ?r1" by (simp add: http09_conn_def)
    ultimately show ?thesis using l1 l2
      by (simp add: lifecycle_append)
  qed
qed

lemma multiconnect_accepted:
  assumes "runMultiConnectTest env urls w = (res, w')"
  shows "\<exists>evs c n. trace w' = trace w @ evs \<and> sequential Idle evs = Some c
           \<and> opened evs = map http09_conn [allocated w ..< allocated w + n]
           \<and> (res = None \<longrightarrow> c = Idle)
           \<and> (c = Idle
              \<or> (\<exists>us u rest wk r wk1 e.
                    urls = us @ u # rest \<and> runMultiConnectTest env us w = (None, wk)
                  \<and> new_RoundTripper http09 tlsConf wk = (r, wk1)
                  \<and> downloadFile env r u False wk1 = (Some e, w') \<and> res = Some e))"
proof (cases res)
  case None
  with assms multiconnect_success [of env urls w w'] show ?thesis by blast
next
  case (Some e)
  with assms multiconnect_failure [of env urls w e w'] obtain us u rest wk where
      f: "urls = us @ u # rest" "runMultiConnectTest env us w = (None, wk)"
         "connect_once env u wk = (Some e, w')"
    by blast
  from multiconnect_success [OF f(2)] obtain evs1 where e1:
      "trace wk = trace w @ evs1" "allocated wk = allocated w + length us"
      "opened evs1 = map http09_conn [allocated w ..< allocated w + length us]"
      "sequential Idle evs1 = Some Idle"
    by blast
  from connect_once_effect [OF f(3)] obtain evs2 c where e2:
      "trace w' = trace wk @ evs2" "opened evs2 = [http09_conn (allocated wk)]"
      "sequential Idle evs2 = Some c"
      "sequential Idle evs2 = Some Idle
         \<or> (\<exists>e' r w1. Some e = Some e' \<and> new_RoundTripper http09 tlsConf wk = (r, w1)
                \<and> downloadFile env r u False w1 = (Some e', w'))"
    by blast
  have o: "opened (evs1 @ evs2) = map http09_conn [allocated w ..< allocated w + Suc (length us)]"
    by (simp add: opened_append e1 e2)
  have s: "sequential Idle (evs1 @ evs2) = Some c"
    by (simp add: sequential_append e1 e2)
  have t: "trace w' = trace w @ evs1 @ evs2"
    by (simp add: e1 e2)
  from e2(3,4) have "c = Idle
      \<or> (\<exists>r wk1. new_RoundTripper http09 tlsConf wk = (r, wk1)
             \<and> downloadFile env r u False wk1 = (Some e, w'))"
    by auto
  with f(1,2) Some have "c = Idle
      \<or> (\<exists>us u rest wk r wk1 e.
            urls = us @ u # rest \<and> runMultiConnectTest env us w = (None, wk)
          \<and> new_RoundTripper http09 tlsConf wk = (r, wk1)
          \<and> downloadFile env r u False wk1 = (Some e, w') \<and> res = Some e)"
    by blast
  with o s t Some show ?thesis by blast
qed

lemma multiconnect_lifecycle:
  assumes "runMultiConnectTest env urls w = (res, w')"
  shows "\<exists>seen live. lifecycle [] [] (delta w w') = Some (seen, live)
           \<and> length live \<le> 1 \<and> (res = None \<longrightarrow> live = [])
           \<and> (live = []
              \<or> (\<exists>us u rest wk r wk1 e.
                    urls = us @ u # rest \<and> runMultiConnectTest env us w = (None, wk)
                  \<and> new_RoundTripper http09 tlsConf wk = (r, wk1)
                  \<and> downloadFile env r u False wk1 = (Some e, w') \<and> res = Some e))"
proof -
  from multiconnect_accepted [OF assms] obtain evs c n where a:
      "trace w' = trace w @ evs" "sequential Idle evs = Some c"
      "opened evs = map http09_conn [allocated w ..< allocated w + n]"
      "res = None \<longrightarrow> c = Idle"
      "c = Idle
         \<or> (\<exists>us u rest wk r wk1 e.
               urls = us @ u # rest \<and> runMultiConnectTest env us w = (None, wk)
             \<and> new_RoundTripper http09 tlsConf wk = (r, wk1)
             \<and> downloadFile env r u False wk1 = (Some e, w') \<and> res = Some e)"
    by blast
  have "inj_on http09_conn A" for A
    by (auto simp: inj_on_def http09_conn_def)
  then have d: "distinct (opened evs)"
    by (simp add: a(3) distinct_map)
  from sequential_lifecycle [OF a(2) _ d, of "[]"]
  have l: "lifecycle [] [] evs = Some (rev (opened evs), live_of c)" by simp
  have n: "length (live_of c) \<le> 1" by (cases c) auto
  from a(1) have e: "delta w w' = evs" by (rule delta_trace)
  from a(4) have i: "res = None \<longrightarrow> live_of c = []" by auto
  from a(5) have j: "live_of c = []
         \<or> (\<exists>us u rest wk r wk1 e.
               urls = us @ u # rest \<and> runMultiConnectTest env us w = (None, wk)
             \<and> new_RoundTripper http09 tlsConf wk = (r, wk1)
             \<and> downloadFile env r u False wk1 = (Some e, w') \<and> res = Some e)"
    by (elim disjE) simp_all
  from l n i j show ?thesis
    unfolding e by (intro exI [of _ "rev (opened evs)"] exI [of _ "live_of c"] conjI)
qed

lemma multiconnect_Close_exit:
  assumes us: "runMultiConnectTest env us w = (None, wk)"
    and n: "new_RoundTripper http09 tlsConf wk = (r, wk1)"
    and d: "downloadFile env r u False wk1 = (None, wk2)"
    and c: "Close env r wk2 = (res, w')"
  shows "\<exists>seen. lifecycle [] [] (delta w w') = Some (seen, [])"
proof -
  from n d c have co: "connect_once env u wk = (res, w')"
    by (simp add: connect_once_def)
  from multiconnect_success [OF us] obtain evs1 where e1:
      "trace wk = trace w @ evs1" "allocated wk = allocated w + length us"
      "opened evs1 = map http09_conn [allocated w ..< allocated w + length us]"
      "sequential Idle evs1 = Some Idle"
    by blast
  from connect_once_effect [OF co] obtain evs2 where e2:
      "trace w' = trace wk @ evs2" "opened evs2 = [http09_conn (allocated wk)]"
      "sequential Idle evs2 = Some Idle
         \<or> (\<exists>e' r w1. res = Some e' \<and> new_RoundTripper http09 tlsConf wk = (r, w1)
                \<and> downloadFile env r u False w1 = (Some e', w'))"
    by (elim exE conjE) (rule that)
  from e2(3) n d have s2: "sequential Idle evs2 = Some Idle"
    by auto
  have o: "opened (evs1 @ evs2) = map http09_conn [allocated w ..< allocated w + Suc (length us)]"
    by (simp add: opened_append e1 e2)
  have s: "sequential Idle (evs1 @ evs2) = Some Idle"
    by (simp add: sequential_append e1 s2)
  have t: "trace w' = trace w @ evs1 @ evs2"
    by (simp add: e1 e2)
  have "inj_on http09_conn A" for A
    by (auto simp: inj_on_def http09_conn_def)
  then have dd: "distinct (opened (evs1 @ evs2))"
    unfolding o by (simp add: distinct_map del: upt_Suc)
  from sequential_lifecycle [OF s _ dd, of "[]"]
  have l: "lifecycle [] [] (evs1 @ evs2) = Some (rev (opened (evs1 @ evs2)), [])" by simp
  from t have e: "delta w w' = evs1 @ evs2" by (rule delta_trace)
  from l show ?thesis unfolding e by (rule exI)
qed

lemma eight_cases:
  "x = a \<or> x \<in> {b, c, d} \<or> x = e \<or> x = f \<or> x = g \<or> x = h
   \<or> x \<notin> {a, b, c, d, e, f, g, h}"
  by blast
subsection \<open>The runs of the goroutines of a batch\<close>

lemma calls_of_snoc:
  "length owner = length evs \<Longrightarrow>
   calls_of i w (owner @ [j]) (evs @ [ev]) =
     calls_of i w owner evs @ (if j = i then [(extends w evs, ev)] else [])"
proof (induction owner evs arbitrary: w rule: list_induct2)
  case Nil
  show ?case by simp
next
  case (Cons k owner e evs)
  have "extends (emit e w) evs = extends w (e # evs)"
    by (simp add: emit_extends)
  with Cons.IH [of "emit e w"] show ?case by simp
qed

lemma task_step_progress:
  assumes "progress env cl url b calls t"
  shows "(snd (task_step env t w) = w \<and> progress env cl url b calls (fst (task_step env t w)))
       \<or> (\<exists>ev. snd (task_step env t w) = emit ev w
              \<and> progress env cl url b (calls @ [(w, ev)]) (fst (task_step env t w)))"
proof (cases t)
  case (Start c u f)
  with assms show ?thesis
    by (auto simp: fetch_run_def RoundTrip_def split: sum.splits)
next
  case (GotResponse q rsp)
  with assms show ?thesis
    by (auto simp: fetch_run_def os_Create_def split: option.splits)
next
  case (FileOpen q rsp)
  with assms show ?thesis
    by (auto simp: fetch_run_def io_Copy_def)
next
  case (ClosingFile e q)
  with assms show ?thesis
    by (auto simp: fetch_run_def)
next
  case (ClosingBody e q)
  with assms show ?thesis
    by (auto simp: fetch_run_def)
next
  case (Done e)
  with assms show ?thesis by simp
qed

lemma Go_step_run_inv:
  assumes "run_inv env cl urls b w gw"
  shows "run_inv env cl urls b w (Go_step env i gw)"
proof (cases "i < length (goroutines (fst gw))")
  case False
  with assms show ?thesis by (simp add: Go_step_outside)
next
  case True
  obtain g w1 where gw: "gw = (g, w1)" by (cases gw)
  from assms gw obtain evs owner where len: "length (goroutines g) = length urls"
      and w1: "w1 = extends w evs" and lo: "length owner = length evs"
      and own: "list_all (\<lambda>j. j < length urls) owner"
      and pr: "\<And>k. k < length urls \<Longrightarrow>
                 progress env cl (urls ! k) b (calls_of k w owner evs) (goroutines g ! k)"
    unfolding run_inv_def by auto
  let ?t = "fst (task_step env (goroutines g ! i) w1)"
  let ?w = "snd (task_step env (goroutines g ! i) w1)"
  from True gw len have i: "i < length urls" by simp
  have g': "fst (Go_step env i gw) = \<lparr>goroutines = (goroutines g)[i := ?t],
        group_err = record_err (goroutines g ! i) ?t (group_err g)\<rparr>"
      and w': "snd (Go_step env i gw) = ?w"
    using True gw by (simp_all add: Go_step_def split: prod.splits)
  from task_step_progress [OF pr [OF i], of w1]
  show ?thesis
  proof (elim disjE exE conjE)
    assume s: "?w = w1"
      and p: "progress env cl (urls ! i) b (calls_of i w owner evs) ?t"
    have "progress env cl (urls ! k) b (calls_of k w owner evs) ((goroutines g)[i := ?t] ! k)"
      if "k < length urls" for k
      using that p pr [OF that] len by (cases "k = i") simp_all
    with s w1 lo own len show ?thesis
      unfolding run_inv_def g' w' by (auto intro!: exI [of _ evs] exI [of _ owner])
  next
    fix ev
    assume s: "?w = emit ev w1"
      and p: "progress env cl (urls ! i) b (calls_of i w owner evs @ [(w1, ev)]) ?t"
    have "progress env cl (urls ! k) b (calls_of k w (owner @ [i]) (evs @ [ev]))
            ((goroutines g)[i := ?t] ! k)"
      if "k < length urls" for k
      using that p pr [OF that] len w1 by (cases "k = i") (simp_all add: calls_of_snoc [OF lo])
    moreover from s w1 have "?w = extends w (evs @ [ev])"
      by (simp add: emit_extends)
    ultimately show ?thesis
      using lo own len i unfolding run_inv_def g' w'
      by (auto intro!: exI [of _ "evs @ [ev]"] exI [of _ "owner @ [i]"])
  qed
qed

lemma fold_Go_step_run_inv:
  "run_inv env cl urls b w gw \<Longrightarrow> run_inv env cl urls b w (fold (Go_step env) is gw)"
  by (induction "is" arbitrary: gw) (auto simp: Go_step_run_inv)

lemma launch_run_inv: "run_inv env cl urls b w (launch cl urls b, w)"
  unfolding run_inv_def
  by (auto simp: launch_def intro!: exI [of _ "[]"])

lemma Wait_run_inv: "run_inv env cl urls b w (Wait env (launch cl urls b, w))"
  unfolding Wait_def by (rule fold_Go_step_run_inv) (rule launch_run_inv)

lemma returned_Done: "returned t \<Longrightarrow> t = Done (failure t)"
  by (cases t) auto

lemma returned_map_Done: "list_all returned ts \<Longrightarrow> ts = map Done (map failure ts)"
  by (induction ts) (auto dest: returned_Done)

lemma downloadFile_fetch_run:
  "fetch_run env cl url b
     (calls_of 0 w (replicate (length (delta w (snd (downloadFile env cl url b w)))) 0)
        (delta w (snd (downloadFile env cl url b w))))
     (fst (downloadFile env cl url b w))"
proof (cases "NewRequest env (if b then MethodGet0RTT env else MethodGet) url")
  case (Inl err)
  then show ?thesis
    by (simp add: downloadFile_def fetch_run_def delta_def)
next
  case (Inr req)
  then show ?thesis
    by (simp add: downloadFile_def fetch_run_def RoundTrip_def os_Create_def io_Copy_def
          emit_def delta_def eval_nat_numeral split: sum.splits option.splits)
qed


section \<open>The claims\<close>

subsection \<open>C1\<close>

text \<open>
  C1, as the code has it: in the calls of every test case each RoundTripper is created
  once, is closed at most once and only after it was created, and is used for an exchange
  only between the two; at most one RoundTripper is left open. The RoundTripper of a
  plain transfer (\<open>http3\<close>, \<open>handshake\<close>, \<open>transfer\<close>, \<open>retry\<close>) is closed exactly once
  on every path. The multi-connect strategy has closed exactly once every RoundTripper
  it created, on every path but the return with the error of a fetch: when it returns
  \<open>nil\<close>, and when it returns the error of a \<open>Close\<close> (lines 103 to 105), where the
  RoundTripper whose \<open>Close\<close> failed counts as closed. The resumption strategy (\<open>resumption\<close>, \<open>zerortt\<close>)
  has closed exactly once every RoundTripper it created, on every path but the return
  with the error of the phase-1 download, where only the first one was created. The
  RoundTrippers that were closed, together with those left open, are those created.
\<close>

theorem transport_handles_closed:
  "runTestcase env testcase urls w = (res, w') \<Longrightarrow>
   (\<exists>seen live.
       lifecycle [] [] (delta w w') = Some (seen, live)
     \<and> distinct (opened (delta w w'))
     \<and> mset (closed (delta w w')) + mset live = mset (opened (delta w w'))
     \<and> length live \<le> 1
     \<and> (testcase \<in> {''http3'', ''handshake'', ''transfer'', ''retry''} \<longrightarrow>
          live = [] \<and> length seen = 1)
     \<and> (testcase = ''multiconnect'' \<and> res = None \<longrightarrow> live = [])
     \<and> (testcase \<in> {''resumption'', ''zerortt''} \<longrightarrow>
          live = [] \<or> res \<noteq> None \<and> length seen = 1)
     \<and> (testcase = ''multiconnect'' \<longrightarrow>
          live = []
          \<or> (\<exists>us u rest wk r wk1 e.
                urls = us @ u # rest \<and> runMultiConnectTest env us w = (None, wk)
              \<and> new_RoundTripper http09 tlsConf wk = (r, wk1)
              \<and> downloadFile env r u False wk1 = (Some e, w') \<and> res = Some e))
     \<and> (testcase \<in> {''resumption'', ''zerortt''} \<longrightarrow>
          live = []
          \<or> (\<exists>r1 w1 e.
                new_RoundTripper http09 tlsConf
                  (emit (NewLRUClientSessionCache_ev 1) (w\<lparr>ClientSessionCache := Some 1\<rparr>))
                  = (r1, w1)
              \<and> downloadFile env r1 (urls ! 0) False w1 = (Some e, w') \<and> res = Some e))
     \<and> (testcase = ''multiconnect'' \<longrightarrow>
          (\<forall>us u rest wk r wk1 wk2.
              urls = us @ u # rest \<and> runMultiConnectTest env us w = (None, wk)
            \<and> new_RoundTripper http09 tlsConf wk = (r, wk1)
            \<and> downloadFile env r u False wk1 = (None, wk2)
            \<and> Close env r wk2 = (res, w') \<longrightarrow> live = [])))"
proof -
  assume run: "runTestcase env testcase urls w = (res, w')"
  let ?plain = "\<lambda>seen live :: RoundTripper list.
      testcase \<in> {''http3'', ''handshake'', ''transfer'', ''retry''} \<longrightarrow>
        live = [] \<and> length seen = 1"
  let ?multiS = "\<lambda>live :: RoundTripper list.
      testcase = ''multiconnect'' \<and> res = None \<longrightarrow> live = []"
  let ?resS = "\<lambda>seen live :: RoundTripper list.
      testcase \<in> {''resumption'', ''zerortt''} \<longrightarrow>
        live = [] \<or> res \<noteq> None \<and> length seen = 1"
  let ?multiF = "\<lambda>live :: RoundTripper list.
      testcase = ''multiconnect'' \<longrightarrow>
        live = []
        \<or> (\<exists>us u rest wk r wk1 e.
              urls = us @ u # rest \<and> runMultiConnectTest env us w = (None, wk)
            \<and> new_RoundTripper http09 tlsConf wk = (r, wk1)
            \<and> downloadFile env r u False wk1 = (Some e, w') \<and> res = Some e)"
  let ?resF = "\<lambda>live :: RoundTripper list.
      testcase \<in> {''resumption'', ''zerortt''} \<longrightarrow>
        live = []
        \<or> (\<exists>r1 w1 e.
              new_RoundTripper http09 tlsConf
                (emit (NewLRUClientSessionCache_ev 1) (w\<lparr>ClientSessionCache := Some 1\<rparr>))
                = (r1, w1)
            \<and> downloadFile env r1 (urls ! 0) False w1 = (Some e, w') \<and> res = Some e)"
  have main: "\<exists>seen live.
       lifecycle [] [] (delta w w') = Some (seen, live) \<and> length live \<le> 1
     \<and> ?plain seen live \<and> ?multiS live \<and> ?resS seen live \<and> ?multiF live \<and> ?resF live"
  proof -
    have resum: "\<exists>seen live.
       lifecycle [] [] (delta w w') = Some (seen, live) \<and> length live \<le> 1
     \<and> ?plain seen live \<and> ?multiS live \<and> ?resS seen live \<and> ?multiF live \<and> ?resF live"
      if b: "runResumptionTest env urls b w = (res, w')"
        and t: "testcase = ''resumption'' \<or> testcase = ''zerortt''" for b
    proof -
      from resumption_lifecycle [of w env urls b] obtain seen live where
          "lifecycle [] [] (delta w w') = Some (seen, live)" "length live \<le> 1"
          "live = [] \<or> res \<noteq> None \<and> length seen = 1"
          "live = []
           \<or> (\<exists>r1 w1 e.
                 new_RoundTripper http09 tlsConf
                   (emit (NewLRUClientSessionCache_ev 1) (w\<lparr>ClientSessionCache := Some 1\<rparr>))
                   = (r1, w1)
               \<and> downloadFile env r1 (urls ! 0) False w1 = (Some e, w') \<and> res = Some e)"
        unfolding b fst_conv snd_conv by (elim exE conjE) (rule that)
      moreover from t have "testcase \<noteq> ''multiconnect''"
          "testcase \<notin> {''http3'', ''handshake'', ''transfer'', ''retry''}"
        by auto
      ultimately show ?thesis
        by (intro exI [of _ seen] exI [of _ live]) simp
    qed
    from eight_cases [of testcase "''http3''" "''handshake''" "''transfer''" "''retry''"
        "''multiconnect''" "''versionnegotiation''" "''resumption''" "''zerortt''"]
    show ?thesis
    proof (elim disjE)
      assume http3: "testcase = ''http3''"
      with run have "w' = snd (spec_plain_transfer env http3 urls w)"
        by (simp add: dispatch_http3)
      with spec_plain_transfer_lifecycle [of w env http3 urls] http3 show ?thesis by simp
    next
      assume http09: "testcase \<in> {''handshake'', ''transfer'', ''retry''}"
      with run have "w' = snd (spec_plain_transfer env http09 urls w)"
        by (auto simp: dispatch_http09)
      with spec_plain_transfer_lifecycle [of w env http09 urls] http09 show ?thesis by auto
    next
      assume multi: "testcase = ''multiconnect''"
      with run have "runMultiConnectTest env urls w = (res, w')"
        by (simp add: dispatch_strategies)
      from multiconnect_lifecycle [OF this] obtain seen live where
          "lifecycle [] [] (delta w w') = Some (seen, live)" "length live \<le> 1"
          "res = None \<longrightarrow> live = []"
          "live = []
           \<or> (\<exists>us u rest wk r wk1 e.
                 urls = us @ u # rest \<and> runMultiConnectTest env us w = (None, wk)
               \<and> new_RoundTripper http09 tlsConf wk = (r, wk1)
               \<and> downloadFile env r u False wk1 = (Some e, w') \<and> res = Some e)"
        by (elim exE conjE) (rule that)
      with multi show ?thesis
        by (intro exI [of _ seen] exI [of _ live]) simp
    next
      assume vn: "testcase = ''versionnegotiation''"
      with run have "w' = snd (runVersionNegotiationTest env urls w)"
        by (simp add: dispatch_strategies)
      with versionnegotiation_lifecycle [of w env urls] vn show ?thesis by auto
    next
      assume t: "testcase = ''resumption''"
      with run have "runResumptionTest env urls False w = (res, w')"
        by (simp add: dispatch_strategies)
      then show ?thesis using t by (intro resum) simp_all
    next
      assume t: "testcase = ''zerortt''"
      with run have "runResumptionTest env urls True w = (res, w')"
        by (simp add: dispatch_strategies)
      then show ?thesis using t by (intro resum) simp_all
    next
      assume other: "testcase \<notin> {''http3'', ''handshake'', ''transfer'', ''retry'', ''multiconnect'',
                 ''versionnegotiation'', ''resumption'', ''zerortt''}"
      with run dispatch_unknown [of testcase env urls w] have "w' = w" by simp
      with other show ?thesis by (simp add: delta_def)
    qed
  qed
  then obtain seen live where l: "lifecycle [] [] (delta w w') = Some (seen, live)"
      and rest: "length live \<le> 1" "?plain seen live" "?multiS live" "?resS seen live"
        "?multiF live" "?resF live"
    by (elim exE conjE) (rule that)
  from lifecycle_meaning [OF l] have m: "distinct (opened (delta w w'))"
      "mset (closed (delta w w')) + mset live = mset (opened (delta w w'))"
    by auto
  have ce: "testcase = ''multiconnect'' \<longrightarrow>
          (\<forall>us u rest wk r wk1 wk2.
              urls = us @ u # rest \<and> runMultiConnectTest env us w = (None, wk)
            \<and> new_RoundTripper http09 tlsConf wk = (r, wk1)
            \<and> downloadFile env r u False wk1 = (None, wk2)
            \<and> Close env r wk2 = (res, w') \<longrightarrow> live = [])"
  proof (intro impI allI, elim conjE)
    fix us u rest wk r wk1 wk2
    assume "runMultiConnectTest env us w = (None, wk)"
      "new_RoundTripper http09 tlsConf wk = (r, wk1)"
      "downloadFile env r u False wk1 = (None, wk2)"
      "Close env r wk2 = (res, w')"
    from multiconnect_Close_exit [OF this] obtain seen' where
        "lifecycle [] [] (delta w w') = Some (seen', [])" ..
    with l show "live = []" by simp
  qed
  from l m rest ce show ?thesis
    by (intro exI [of _ seen] exI [of _ live] conjI)
qed

theorem transport_handles_closed_witness:
  "(\<exists>seen. lifecycle [] [] (delta w0 (snd (runTestcase env_ok ''http3'' [''/a'', ''/b''] w0)))
             = Some (seen, []) \<and> length seen = 1)
   \<and> mset (closed (delta w0 (snd (runTestcase env_ok ''multiconnect'' [''/a'', ''/b''] w0))))
       = mset (opened (delta w0 (snd (runTestcase env_ok ''multiconnect'' [''/a'', ''/b''] w0))))
   \<and> fst (runTestcase (env_close (Error ''closed'')) ''multiconnect'' [''/a'', ''/b''] w0)
       = Some (Error ''closed'')
   \<and> mset (closed (delta w0 (snd (runTestcase (env_close (Error ''closed'')) ''multiconnect''
                                     [''/a'', ''/b''] w0))))
       = mset (opened (delta w0 (snd (runTestcase (env_close (Error ''closed'')) ''multiconnect''
                                     [''/a'', ''/b''] w0))))
   \<and> mset (closed (delta w0 (snd (runTestcase env_ok ''resumption'' [''/a'', ''/b''] w0))))
       = mset (opened (delta w0 (snd (runTestcase env_ok ''resumption'' [''/a'', ''/b''] w0))))"
proof -
  define run4 where "run4 = runTestcase env_ok ''resumption'' [''/a'', ''/b''] w0"
  have "fst run4 = None"
    unfolding run4_def by code_simp
  then have h4: "runTestcase env_ok ''resumption'' [''/a'', ''/b''] w0 = (None, snd run4)"
    by (simp add: run4_def prod_eq_iff)
  have m4: "''resumption'' \<in> {''resumption'', ''zerortt''}"
    by simp
  from transport_handles_closed [OF h4] obtain seen4 :: "RoundTripper list" and live4 where
      e4: "mset (closed (delta w0 (snd run4))) + mset live4 = mset (opened (delta w0 (snd run4)))"
      and q4: "''resumption'' \<in> {''resumption'', ''zerortt''} \<longrightarrow>
                 live4 = [] \<or> (None :: error option) \<noteq> None \<and> length seen4 = 1"
    by (elim exE conjE) (rule that)
  from q4 m4 have "live4 = []" by simp
  with e4 have d: "mset (closed (delta w0 (snd run4))) = mset (opened (delta w0 (snd run4)))"
    by simp
  define ec where "ec = env_close (Error ''closed'')"
  define run3 where "run3 = runTestcase ec ''multiconnect'' [''/a'', ''/b''] w0"
  define n3 where "n3 = new_RoundTripper http09 tlsConf w0"
  define d3 where "d3 = downloadFile ec (fst n3) ''/a'' False (snd n3)"
  have h3: "runTestcase ec ''multiconnect'' [''/a'', ''/b''] w0 = (fst run3, snd run3)"
    by (simp add: run3_def)
  have f1: "[''/a'', ''/b''] = [] @ ''/a'' # [''/b'']"
    by simp
  have f2: "runMultiConnectTest ec [] w0 = (None, w0)"
    by simp
  have f3: "new_RoundTripper http09 tlsConf w0 = (fst n3, snd n3)"
    by (simp add: n3_def)
  have "fst d3 = None"
    unfolding d3_def n3_def ec_def by code_simp
  then have f4: "downloadFile ec (fst n3) ''/a'' False (snd n3) = (None, snd d3)"
    by (simp add: d3_def prod_eq_iff)
  have f5: "Close ec (fst n3) (snd d3) = (fst run3, snd run3)"
    unfolding prod.collapse unfolding run3_def d3_def n3_def ec_def by code_simp
  have r3: "fst run3 = Some (Error ''closed'')"
    unfolding run3_def ec_def by code_simp
  from transport_handles_closed [OF h3] obtain seen3 live3 where
      m3: "mset (closed (delta w0 (snd run3))) + mset live3 = mset (opened (delta w0 (snd run3)))"
      and c3: "''multiconnect'' = ''multiconnect'' \<longrightarrow>
          (\<forall>us u rest wk r wk1 wk2.
              [''/a'', ''/b''] = us @ u # rest \<and> runMultiConnectTest ec us w0 = (None, wk)
            \<and> new_RoundTripper http09 tlsConf wk = (r, wk1)
            \<and> downloadFile ec r u False wk1 = (None, wk2)
            \<and> Close ec r wk2 = (fst run3, snd run3) \<longrightarrow> live3 = [])"
    by (elim exE conjE) (rule that)
  have "live3 = []"
  proof (rule c3 [rule_format, OF refl])
    from f1 f2 f3 f4 f5
    show "[''/a'', ''/b''] = [] @ ''/a'' # [''/b''] \<and> runMultiConnectTest ec [] w0 = (None, w0)
            \<and> new_RoundTripper http09 tlsConf w0 = (fst n3, snd n3)
            \<and> downloadFile ec (fst n3) ''/a'' False (snd n3) = (None, snd d3)
            \<and> Close ec (fst n3) (snd d3) = (fst run3, snd run3)"
      by (intro conjI)
  qed
  with m3 have c: "mset (closed (delta w0 (snd run3))) = mset (opened (delta w0 (snd run3)))"
    by simp
  have h1: "runTestcase env_ok ''http3'' [''/a'', ''/b''] w0
              = (fst (runTestcase env_ok ''http3'' [''/a'', ''/b''] w0),
                 snd (runTestcase env_ok ''http3'' [''/a'', ''/b''] w0))"
    by simp
  have m1: "''http3'' \<in> {''http3'', ''handshake'', ''transfer'', ''retry''}"
    by simp
  have "fst (runTestcase env_ok ''multiconnect'' [''/a'', ''/b''] w0) = None"
    by code_simp
  then have h2: "runTestcase env_ok ''multiconnect'' [''/a'', ''/b''] w0
              = (None, snd (runTestcase env_ok ''multiconnect'' [''/a'', ''/b''] w0))"
    by (simp add: prod_eq_iff)
  from transport_handles_closed [OF h1] obtain seen live where
      l: "lifecycle [] [] (delta w0 (snd (runTestcase env_ok ''http3'' [''/a'', ''/b''] w0)))
            = Some (seen, live)"
      and p: "''http3'' \<in> {''http3'', ''handshake'', ''transfer'', ''retry''} \<longrightarrow>
                live = [] \<and> length seen = 1"
    by (elim exE conjE) (rule that)
  from p m1 have "live = []" "length seen = 1" by simp_all
  with l have a: "\<exists>seen. lifecycle [] [] (delta w0 (snd (runTestcase env_ok ''http3'' [''/a'', ''/b''] w0)))
             = Some (seen, []) \<and> length seen = 1"
    by (intro exI [of _ seen]) simp
  from transport_handles_closed [OF h2] obtain seen2 live2 where
      q: "''multiconnect'' = ''multiconnect'' \<and> (None :: error option) = None \<longrightarrow> live2 = []"
      and m: "mset (closed (delta w0 (snd (runTestcase env_ok ''multiconnect'' [''/a'', ''/b''] w0))))
                + mset live2
              = mset (opened (delta w0 (snd (runTestcase env_ok ''multiconnect'' [''/a'', ''/b''] w0))))"
    by (elim exE conjE) (rule that)
  from q have "live2 = []" by simp
  with m have b: "mset (closed (delta w0 (snd (runTestcase env_ok ''multiconnect'' [''/a'', ''/b''] w0))))
       = mset (opened (delta w0 (snd (runTestcase env_ok ''multiconnect'' [''/a'', ''/b''] w0))))"
    by simp
  from a b r3 c d show ?thesis
    unfolding run3_def run4_def ec_def by (intro conjI)
qed

text \<open>
  C1 as stated fails on three paths: the probe never closes the RoundTripper it
  creates; the resumption strategy returns without closing the first RoundTripper when
  phase 1 fails; and the multi-connect strategy returns without closing the current
  RoundTripper when its fetch fails.
\<close>

theorem handles_left_open:
  "opened (delta w0 (snd (runVersionNegotiationTest env_ok [''/a''] w0)))
     = [\<lparr>ident = 0, kind = http09, TLSClientConfig = nil_config\<rparr>]
   \<and> closed (delta w0 (snd (runVersionNegotiationTest env_ok [''/a''] w0))) = []
   \<and> opened (delta w0 (snd (runResumptionTest (env_one ''/a'' (Error ''timeout''))
                                [''/a'', ''/b''] False w0))) = [http09_conn 0]
   \<and> closed (delta w0 (snd (runResumptionTest (env_one ''/a'' (Error ''timeout''))
                                [''/a'', ''/b''] False w0))) = []
   \<and> opened (delta w0 (snd (runMultiConnectTest (env_one ''/a'' (Error ''timeout''))
                                [''/a'', ''/b''] w0))) = [http09_conn 0]
   \<and> closed (delta w0 (snd (runMultiConnectTest (env_one ''/a'' (Error ''timeout''))
                                [''/a'', ''/b''] w0))) = []"
  by code_simp

subsection \<open>C2\<close>

text \<open>
  C2: for a single URL, the version-negotiation probe succeeds if and only if the
  underlying fetch fails with an error whose text contains
  \<open>No compatible QUIC version found\<close>; if the fetch succeeds the probe returns the error
  \<open>expected version negotiation to fail\<close>, and if the fetch fails with a text that does
  not contain the substring the probe returns an error that reports the text it got.
  The fetch is \<open>downloadFile\<close> on a fresh http09 RoundTripper without TLS configuration,
  after the supported versions have been replaced.
\<close>

theorem versionnegotiation_verdict:
  "(let fetch = fst (case new_RoundTripper http09 nil_config
                            (w\<lparr>SupportedVersions := [0x1a2a3a4a]\<rparr>) of
                       (r, w1) \<Rightarrow> downloadFile env r url False w1);
        verdict = fst (runVersionNegotiationTest env [url] w)
    in (verdict = None \<longleftrightarrow>
          (\<exists>e. fetch = Some e \<and> Contains (Error_text e) ''No compatible QUIC version found''))
     \<and> (fetch = None \<longrightarrow> verdict = Some (Error ''expected version negotiation to fail''))
     \<and> (\<forall>e. fetch = Some e \<and> \<not> Contains (Error_text e) ''No compatible QUIC version found''
            \<longrightarrow> verdict =
                Some (Error (''expect version negotiation error, got: '' @ Error_text e))))"
  by (simp add: runVersionNegotiationTest_def Let_def split: prod.splits option.splits)

theorem versionnegotiation_verdict_witness:
  "fst (runVersionNegotiationTest
          (env_rt (Error ''handshake failed: No compatible QUIC version found.'')) [''/a''] w0)
     = None
   \<and> fst (runVersionNegotiationTest env_ok [''/a''] w0)
     = Some (Error ''expected version negotiation to fail'')
   \<and> fst (runVersionNegotiationTest (env_rt (Error ''timeout'')) [''/a''] w0)
     = Some (Error ''expect version negotiation error, got: timeout'')"
  using versionnegotiation_verdict
          [where w = w0 and url = "''/a''"
             and env = "env_rt (Error ''handshake failed: No compatible QUIC version found.'')"]
        versionnegotiation_verdict [where w = w0 and env = env_ok and url = "''/a''"]
        versionnegotiation_verdict [where w = w0 and env = "env_rt (Error ''timeout'')" and url = "''/a''"]
  by (simp add: Let_def downloadFile_def ext_defs env_defs)

subsection \<open>C3\<close>

text \<open>
  C3: \<open>runTestcase\<close> maps \<open>http3\<close> to a plain transfer over an http3 RoundTripper;
  \<open>handshake\<close>, \<open>transfer\<close> and \<open>retry\<close> to the same plain transfer over an http09
  RoundTripper; \<open>multiconnect\<close>, \<open>versionnegotiation\<close>, \<open>resumption\<close> and \<open>zerortt\<close> to
  their strategies, \<open>resumption\<close> without and \<open>zerortt\<close> with 0-RTT; and every other
  identifier to \<open>errUnsupported\<close>, the world as it was. The plain transfer creates one
  RoundTripper with the global TLS configuration, makes on it one exchange, without
  0-RTT, for every URL that parses, and closes it last.
\<close>

theorem runTestcase_dispatch:
  "runTestcase env ''http3'' urls w = spec_plain_transfer env http3 urls w
   \<and> runTestcase env ''handshake'' urls w = spec_plain_transfer env http09 urls w
   \<and> runTestcase env ''transfer'' urls w = spec_plain_transfer env http09 urls w
   \<and> runTestcase env ''retry'' urls w = spec_plain_transfer env http09 urls w
   \<and> runTestcase env ''multiconnect'' urls w = runMultiConnectTest env urls w
   \<and> runTestcase env ''versionnegotiation'' urls w = runVersionNegotiationTest env urls w
   \<and> runTestcase env ''resumption'' urls w = runResumptionTest env urls False w
   \<and> runTestcase env ''zerortt'' urls w = runResumptionTest env urls True w
   \<and> (testcase \<notin> {''http3'', ''handshake'', ''transfer'', ''retry'', ''multiconnect'',
                    ''versionnegotiation'', ''resumption'', ''zerortt''} \<longrightarrow>
        runTestcase env testcase urls w = (Some errUnsupported, w))
   \<and> (\<exists>evs. snd (spec_plain_transfer env v urls w) =
            extends (w\<lparr>allocated := Suc (allocated w)\<rparr>)
              (New_ev \<lparr>ident = allocated w, kind = v, TLSClientConfig = tlsConf\<rparr> # evs @
               [Close_ev \<lparr>ident = allocated w, kind = v, TLSClientConfig = tlsConf\<rparr>])
      \<and> list_all (transfer_ev env \<lparr>ident = allocated w, kind = v, TLSClientConfig = tlsConf\<rparr> urls False) evs
      \<and> mset (fetched_urls evs) = mset (filter (parses env) urls))"
  by (intro conjI dispatch_http3 dispatch_http09 dispatch_strategies dispatch_unknown
        spec_plain_transfer_effect)

theorem runTestcase_dispatch_witness:
  "runTestcase env_ok ''goodput'' [''/a''] w0 = (Some errUnsupported, w0)"
proof -
  have n: "''goodput'' \<notin> {''http3'', ''handshake'', ''transfer'', ''retry'', ''multiconnect'',
                    ''versionnegotiation'', ''resumption'', ''zerortt''}"
    by simp
  have "''goodput'' \<notin> {''http3'', ''handshake'', ''transfer'', ''retry'', ''multiconnect'',
                    ''versionnegotiation'', ''resumption'', ''zerortt''} \<longrightarrow>
        runTestcase env_ok ''goodput'' [''/a''] w0 = (Some errUnsupported, w0)"
    using runTestcase_dispatch [where testcase = "''goodput''" and env = env_ok
        and urls = "[''/a'']" and w = w0 and v = http09]
    by (elim conjE)
  with n show ?thesis by (rule mp [rotated])
qed

subsection \<open>C4\<close>

text \<open>
  C4: given at least two URLs, the resumption strategy installs a session cache of
  capacity 1, creates an http09 RoundTripper and runs phase 1, which is one
  \<open>downloadFile\<close> of the first URL without 0-RTT. If that fails, the strategy returns
  its error in the world phase 1 left: nothing else is called. Otherwise it closes the
  first RoundTripper, creates a second one with the same TLS configuration (the session
  cache still installed) and runs phase 2: the batch of the URLs after the first, with
  the caller's \<open>use0RTT\<close>, whose exchanges are all on the second RoundTripper, one for
  every URL of the rest that parses; the strategy returns the result of that batch,
  after closing the second RoundTripper.
\<close>

theorem resumption_phases:
  "2 \<le> length urls \<Longrightarrow>
   (case new_RoundTripper http09 tlsConf
           (emit (NewLRUClientSessionCache_ev 1) (w\<lparr>ClientSessionCache := Some 1\<rparr>)) of
      (r1, w1) \<Rightarrow>
        (case downloadFile env r1 (urls ! 0) False w1 of
           (Some err, w2) \<Rightarrow> runResumptionTest env urls use0RTT w = (Some err, w2)
         | (None, w2) \<Rightarrow>
             (case new_RoundTripper http09 tlsConf (emit (Close_ev r1) w2) of
                (r2, w4) \<Rightarrow>
                  (case downloadFiles env r2 (drop 1 urls) use0RTT w4 of
                     (res, w5) \<Rightarrow>
                       runResumptionTest env urls use0RTT w = (res, emit (Close_ev r2) w5)
                     \<and> r2 \<noteq> r1
                     \<and> TLSClientConfig r1 = tlsConf \<and> TLSClientConfig r2 = tlsConf
                     \<and> ClientSessionCache w4 = Some 1
                     \<and> list_all (transfer_ev env r2 (drop 1 urls) use0RTT) (delta w4 w5)
                     \<and> mset (fetched_urls (delta w4 w5))
                         = mset (filter (parses env) (drop 1 urls))))))"
proof -
  assume len: "2 \<le> length urls"
  then have t: "take 1 urls = [urls ! 0]"
    by (cases urls) auto
  let ?w0 = "emit (NewLRUClientSessionCache_ev 1) (w\<lparr>ClientSessionCache := Some 1\<rparr>)"
  obtain r1 w1 where n1: "new_RoundTripper http09 tlsConf ?w0 = (r1, w1)"
    by (cases "new_RoundTripper http09 tlsConf ?w0")
  then have r1: "r1 = http09_conn (allocated w)" and a1: "allocated w1 = Suc (allocated w)"
      and c1: "ClientSessionCache w1 = Some 1"
    by (auto simp: new_RoundTripper_def Let_def emit_def http09_conn_def)
  obtain p1 w2 where d1: "downloadFile env r1 (urls ! 0) False w1 = (p1, w2)"
    by (cases "downloadFile env r1 (urls ! 0) False w1")
  from downloadFile_delta [of env r1 "urls ! 0" False w1] d1
  have w2: "w2 = extends w1 (delta w1 w2)" by simp
  show ?thesis
  proof (cases p1)
    case (Some err)
    with len n1 d1 t show ?thesis
      by (simp add: runResumptionTest_def downloadFiles_single)
  next
    case None
    obtain r2 w4 where n2: "new_RoundTripper http09 tlsConf (emit (Close_ev r1) w2) = (r2, w4)"
      by (cases "new_RoundTripper http09 tlsConf (emit (Close_ev r1) w2)")
    have "allocated w2 = Suc (allocated w)" "ClientSessionCache w2 = Some 1"
      by (subst w2, simp add: a1 c1)+
    with n2 have r2: "r2 = http09_conn (Suc (allocated w))" and c4: "ClientSessionCache w4 = Some 1"
      by (auto simp: new_RoundTripper_def Let_def emit_def http09_conn_def)
    obtain res w5 where d2: "downloadFiles env r2 (drop 1 urls) use0RTT w4 = (res, w5)"
      by (cases "downloadFiles env r2 (drop 1 urls) use0RTT w4")
    from len n1 d1 None n2 d2 t
    have run: "runResumptionTest env urls use0RTT w = (res, emit (Close_ev r2) w5)"
      by (simp add: runResumptionTest_def downloadFiles_single Close_def)
    have ne: "r2 \<noteq> r1" "TLSClientConfig r1 = tlsConf" "TLSClientConfig r2 = tlsConf"
      by (simp_all add: r1 r2 http09_conn_def)
    from downloadFiles_delta [of env r2 "drop 1 urls" use0RTT w4] d2
    have tr: "list_all (transfer_ev env r2 (drop 1 urls) use0RTT) (delta w4 w5)" by simp
    from downloadFiles_fetches [of w4 env r2 "drop 1 urls" use0RTT] d2
    have m: "mset (fetched_urls (delta w4 w5)) = mset (filter (parses env) (drop 1 urls))" by simp
    from n1 d1 None n2 d2 run ne c4 tr m show ?thesis by simp
  qed
qed

theorem resumption_phases_witness:
  "runResumptionTest (env_one ''/a'' (Error ''timeout'')) [''/a'', ''/b''] True w0
     = (Some (Error ''timeout''),
        \<lparr>trace = [NewLRUClientSessionCache_ev 1, New_ev (http09_conn 0),
                  RoundTrip_ev (http09_conn 0) \<lparr>Method = ''GET'', URL = ''/a'', Path = ''/a''\<rparr>],
         allocated = 1, SupportedVersions = [0xff00001d], ClientSessionCache = Some 1\<rparr>)
   \<and> fst (runResumptionTest env_ok [''/a'', ''/b''] True w0) = None
   \<and> fetched (trace (snd (runResumptionTest env_ok [''/a'', ''/b''] True w0)))
       = [(http09_conn 0, \<lparr>Method = ''GET'', URL = ''/a'', Path = ''/a''\<rparr>),
          (http09_conn 1, \<lparr>Method = ''GET_0RTT'', URL = ''/b'', Path = ''/b''\<rparr>)]"
proof -
  have len: "2 \<le> length [''/a'', ''/b'']" by simp
  note t1 = resumption_phases [OF len, where env = "env_one ''/a'' (Error ''timeout'')"
      and ?use0RTT = True and w = w0]
  note t2 = resumption_phases [OF len, where env = env_ok and ?use0RTT = True and w = w0]
  from t1 have "runResumptionTest (env_one ''/a'' (Error ''timeout'')) [''/a'', ''/b''] True w0
     = (Some (Error ''timeout''),
        \<lparr>trace = [NewLRUClientSessionCache_ev 1, New_ev (http09_conn 0),
                  RoundTrip_ev (http09_conn 0) \<lparr>Method = ''GET'', URL = ''/a'', Path = ''/a''\<rparr>],
         allocated = 1, SupportedVersions = [0xff00001d], ClientSessionCache = Some 1\<rparr>)"
    by (simp add: downloadFile_def ext_defs env_defs env_one_def http09_conn_def Let_def)
  moreover from t2 have "runResumptionTest env_ok [''/a'', ''/b''] True w0
     = (None, 
        \<lparr>trace = [NewLRUClientSessionCache_ev 1, New_ev (http09_conn 0),
                  RoundTrip_ev (http09_conn 0) \<lparr>Method = ''GET'', URL = ''/a'', Path = ''/a''\<rparr>,
                  Create_ev ''/downloads/a'', Copy_ev ''/downloads/a'' ''body'',
                  FileClose_ev ''/downloads/a'',
                  BodyClose_ev \<lparr>Method = ''GET'', URL = ''/a'', Path = ''/a''\<rparr>,
                  Close_ev (http09_conn 0), New_ev (http09_conn 1),
                  RoundTrip_ev (http09_conn 1) \<lparr>Method = ''GET_0RTT'', URL = ''/b'', Path = ''/b''\<rparr>,
                  Create_ev ''/downloads/b'', Copy_ev ''/downloads/b'' ''body'',
                  FileClose_ev ''/downloads/b'',
                  BodyClose_ev \<lparr>Method = ''GET_0RTT'', URL = ''/b'', Path = ''/b''\<rparr>,
                  Close_ev (http09_conn 1)],
         allocated = 2, SupportedVersions = [0xff00001d], ClientSessionCache = Some 1\<rparr>)"
    by (simp add: downloadFiles_single downloadFile_def ext_defs env_defs http09_conn_def Let_def)
  ultimately show ?thesis by simp
qed

subsection \<open>C5\<close>

text \<open>
  C5, as the code has it: the resumption strategy given fewer than two URLs, and the
  version-negotiation probe given any number of URLs but one, return the error
  \<open>expected at least 2 URLs\<close> and leave the world as it was (no fetch, no transport);
  the multi-connect strategy has no condition on the number of URLs, and given no URL
  it succeeds, the world as it was.
\<close>

theorem url_count_preconditions:
  "(length urls < 2 \<longrightarrow>
      runResumptionTest env urls use0RTT w = (Some (Error ''expected at least 2 URLs''), w))
   \<and> (length urls \<noteq> 1 \<longrightarrow>
      runVersionNegotiationTest env urls w = (Some (Error ''expected at least 2 URLs''), w))
   \<and> runMultiConnectTest env [] w = (None, w)"
  by (simp add: runResumptionTest_def runVersionNegotiationTest_def)

theorem url_count_preconditions_witness:
  "runResumptionTest env_ok [''/a''] True w0 = (Some (Error ''expected at least 2 URLs''), w0)
   \<and> runVersionNegotiationTest env_ok [] w0 = (Some (Error ''expected at least 2 URLs''), w0)
   \<and> runVersionNegotiationTest env_ok [''/a'', ''/b''] w0
       = (Some (Error ''expected at least 2 URLs''), w0)"
  using url_count_preconditions [where urls = "[''/a'']" and env = env_ok and use0RTT = True and w = w0]
        url_count_preconditions [where urls = "[]" and env = env_ok and w = w0]
        url_count_preconditions [where urls = "[''/a'', ''/b'']" and env = env_ok and w = w0]
  by simp

text \<open>
  C5 as stated fails for the multi-connect strategy: given no URL it returns no error.
\<close>

theorem multiconnect_accepts_no_urls:
  "fst (runMultiConnectTest env_ok [] w0) = None"
  by simp

subsection \<open>C6\<close>

text \<open>
  C6: \<open>downloadFiles\<close> returns when every goroutine it launched, one per URL, has
  returned. The calls made until then are shared out among the goroutines (\<open>owner\<close>
  names the goroutine of each call), and the calls of the \<open>i\<close>-th goroutine are one
  complete run of \<open>downloadFile\<close> for the \<open>i\<close>-th URL, with the result \<open>results ! i\<close>, every
  call answered in the world in which it was made. \<open>downloadFiles\<close> returns no error if
  and only if every one of these runs returned none, and an error it returns is the
  result of one of the runs. Given no URL it returns no error and leaves the world as
  it was; given one URL it is \<open>downloadFile\<close>, whose own calls are such a run.
\<close>

theorem downloadFiles_aggregate:
  "(\<exists>owner results.
       length owner = length (delta w (snd (downloadFiles env cl urls use0RTT w)))
     \<and> list_all (\<lambda>i. i < length urls) owner
     \<and> length results = length urls
     \<and> (\<forall>i<length urls.
          fetch_run env cl (urls ! i) use0RTT
            (calls_of i w owner (delta w (snd (downloadFiles env cl urls use0RTT w))))
            (results ! i))
     \<and> goroutines (fst (Wait env (launch cl urls use0RTT, w))) = map Done results
     \<and> (fst (downloadFiles env cl urls use0RTT w) = None \<longleftrightarrow>
          list_all (\<lambda>r. r = None) results)
     \<and> (\<forall>e. fst (downloadFiles env cl urls use0RTT w) = Some e \<longrightarrow> Some e \<in> set results))
   \<and> list_all returned (goroutines (fst (Wait env (launch cl urls use0RTT, w))))
   \<and> snd (downloadFiles env cl urls use0RTT w) = snd (Wait env (launch cl urls use0RTT, w))
   \<and> snd (downloadFiles env cl urls use0RTT w)
       = extends w (delta w (snd (downloadFiles env cl urls use0RTT w)))
   \<and> downloadFiles env cl [] use0RTT w = (None, w)
   \<and> downloadFiles env cl [url] use0RTT w = downloadFile env cl url use0RTT w
   \<and> fetch_run env cl url use0RTT
        (calls_of 0 w
           (replicate (length (delta w (snd (downloadFile env cl url use0RTT w)))) 0)
           (delta w (snd (downloadFile env cl url use0RTT w))))
        (fst (downloadFile env cl url use0RTT w))"
proof -
  let ?gw = "Wait env (launch cl urls use0RTT, w)"
  let ?g = "fst ?gw"
  let ?evs = "delta w (snd (downloadFiles env cl urls use0RTT w))"
  have sw: "snd (downloadFiles env cl urls use0RTT w) = snd ?gw"
    by (simp add: downloadFiles_Wait)
  have fw: "fst (downloadFiles env cl urls use0RTT w) = group_err ?g"
    by (simp add: downloadFiles_Wait)
  from Wait_run_inv [of env cl urls use0RTT w] obtain evs owner where
      len: "length (goroutines ?g) = length urls"
      and w': "snd ?gw = extends w evs" and lo: "length owner = length evs"
      and own: "list_all (\<lambda>j. j < length urls) owner"
      and pr: "\<And>i. i < length urls \<Longrightarrow>
                 progress env cl (urls ! i) use0RTT (calls_of i w owner evs) (goroutines ?g ! i)"
    unfolding run_inv_def by auto
  have evs: "?evs = evs"
    by (simp add: sw w')
  have ret: "list_all returned (goroutines ?g)"
    by (rule Wait_returned)
  define results where "results = map failure (goroutines ?g)"
  have gs: "goroutines ?g = map Done results"
    unfolding results_def by (rule returned_map_Done) (rule ret)
  have lr: "length results = length urls"
    by (simp add: results_def len)
  have fr: "\<forall>i<length urls.
      fetch_run env cl (urls ! i) use0RTT (calls_of i w owner ?evs) (results ! i)"
  proof (intro allI impI)
    fix i
    assume i: "i < length urls"
    with lr have "map Done results ! i = Done (results ! i)" by simp
    with gs have "goroutines ?g ! i = Done (results ! i)" by simp
    with pr [OF i] show
      "fetch_run env cl (urls ! i) use0RTT (calls_of i w owner ?evs) (results ! i)"
      unfolding evs by simp
  qed
  have inv: "err_inv ?g"
    unfolding Wait_def by (rule fold_Go_step_err_inv) (simp add: launch_err_inv)
  have none: "fst (downloadFiles env cl urls use0RTT w) = None \<longleftrightarrow>
      list_all (\<lambda>r. r = None) results"
  proof (cases "group_err ?g")
    case None
    with inv show ?thesis
      unfolding fw by (simp add: err_inv_def results_def list_all_iff)
  next
    case (Some e0)
    with inv have "Done (Some e0) \<in> set (goroutines ?g)" by (simp add: err_inv_def)
    then have "failure (Done (Some e0)) \<in> set results"
      unfolding results_def set_map by (rule imageI)
    then have "\<not> list_all (\<lambda>r. r = None) results"
      by (auto simp: list_all_iff)
    with Some show ?thesis unfolding fw by simp
  qed
  have some: "\<forall>e. fst (downloadFiles env cl urls use0RTT w) = Some e \<longrightarrow> Some e \<in> set results"
  proof (intro allI impI)
    fix e
    assume "fst (downloadFiles env cl urls use0RTT w) = Some e"
    then have "group_err ?g = Some e" unfolding fw .
    with inv have "Done (Some e) \<in> set (goroutines ?g)" by (simp add: err_inv_def)
    then have "failure (Done (Some e)) \<in> set results"
      unfolding results_def set_map by (rule imageI)
    then show "Some e \<in> set results" by simp
  qed
  from lo have lo': "length owner = length ?evs"
    unfolding evs .
  have ex: "\<exists>owner results.
       length owner = length ?evs
     \<and> list_all (\<lambda>i. i < length urls) owner
     \<and> length results = length urls
     \<and> (\<forall>i<length urls.
          fetch_run env cl (urls ! i) use0RTT (calls_of i w owner ?evs) (results ! i))
     \<and> goroutines ?g = map Done results
     \<and> (fst (downloadFiles env cl urls use0RTT w) = None \<longleftrightarrow>
          list_all (\<lambda>r. r = None) results)
     \<and> (\<forall>e. fst (downloadFiles env cl urls use0RTT w) = Some e \<longrightarrow> Some e \<in> set results)"
    using lo' own lr fr gs none some
    by (intro exI [of _ owner] exI [of _ results] conjI)
  have ext: "snd (downloadFiles env cl urls use0RTT w) = extends w ?evs"
    unfolding evs by (simp add: sw w')
  from ex ret sw ext downloadFiles_Nil [of env cl use0RTT w]
    downloadFiles_single [of env cl url use0RTT w]
    downloadFile_fetch_run [of env cl url use0RTT w]
  show ?thesis by (intro conjI)
qed

theorem downloadFiles_aggregate_witness:
  "fst (downloadFiles (env_one ''/b'' (Error ''timeout'')) r0 [''/a'', ''/b''] False w0)
     = Some (Error ''timeout'')
   \<and> (\<exists>owner results.
         length owner
           = length (delta w0 (snd (downloadFiles (env_one ''/b'' (Error ''timeout'')) r0
                                      [''/a'', ''/b''] False w0)))
       \<and> results = [None, Some (Error ''timeout'')]
       \<and> Some (Error ''timeout'') \<in> set results
       \<and> fetch_run (env_one ''/b'' (Error ''timeout'')) r0 ''/a'' False
           (calls_of 0 w0 owner
              (delta w0 (snd (downloadFiles (env_one ''/b'' (Error ''timeout'')) r0
                                [''/a'', ''/b''] False w0))))
           (results ! 0)
       \<and> fetch_run (env_one ''/b'' (Error ''timeout'')) r0 ''/b'' False
           (calls_of 1 w0 owner
              (delta w0 (snd (downloadFiles (env_one ''/b'' (Error ''timeout'')) r0
                                [''/a'', ''/b''] False w0))))
           (results ! 1))"
proof -
  define ev where "ev = env_one ''/b'' (Error ''timeout'')"
  define us where "us = [''/a'', ''/b'']"
  define evs where "evs = delta w0 (snd (downloadFiles ev r0 us False w0))"
  have h1: "fst (downloadFiles ev r0 us False w0) = Some (Error ''timeout'')"
    unfolding ev_def us_def by code_simp
  have h2: "goroutines (fst (Wait ev (launch r0 us False, w0)))
              = [Done None, Done (Some (Error ''timeout''))]"
    unfolding ev_def us_def by code_simp
  have l: "length us = 2" "us ! 0 = ''/a''" "us ! 1 = ''/b''"
    by (simp_all add: us_def)
  from downloadFiles_aggregate [of w0 ev r0 us False, THEN conjunct1, folded evs_def]
  obtain owner results where
      lo: "length owner = length evs"
      and fr: "\<forall>i<length us. fetch_run ev r0 (us ! i) False (calls_of i w0 owner evs) (results ! i)"
      and gs: "goroutines (fst (Wait ev (launch r0 us False, w0))) = map Done results"
      and some: "\<forall>e. fst (downloadFiles ev r0 us False w0) = Some e \<longrightarrow> Some e \<in> set results"
    by (elim exE conjE) (rule that)
  from gs h2 have "map Done results = [Done None, Done (Some (Error ''timeout''))]"
    by simp
  then have r: "results = [None, Some (Error ''timeout'')]"
    by (auto simp: map_eq_Cons_conv)
  from some [rule_format, OF h1] have m: "Some (Error ''timeout'') \<in> set results" .
  from fr l(1) have "fetch_run ev r0 (us ! 0) False (calls_of 0 w0 owner evs) (results ! 0)"
      "fetch_run ev r0 (us ! 1) False (calls_of 1 w0 owner evs) (results ! 1)"
    by simp_all
  with l have f: "fetch_run ev r0 ''/a'' False (calls_of 0 w0 owner evs) (results ! 0)"
      "fetch_run ev r0 ''/b'' False (calls_of 1 w0 owner evs) (results ! 1)"
    by simp_all
  from lo r m f have "\<exists>owner results. length owner = length evs
       \<and> results = [None, Some (Error ''timeout'')]
       \<and> Some (Error ''timeout'') \<in> set results
       \<and> fetch_run ev r0 ''/a'' False (calls_of 0 w0 owner evs) (results ! 0)
       \<and> fetch_run ev r0 ''/b'' False (calls_of 1 w0 owner evs) (results ! 1)"
    by (intro exI [of _ owner] exI [of _ results] conjI)
  with h1 show ?thesis
    unfolding evs_def ev_def us_def by (intro conjI)
qed
subsection \<open>C7\<close>

text \<open>
  C7: when the multi-connect strategy returns no error on N URLs, it has created N fresh
  RoundTrippers and closed the same N; each was created, used for the one exchange of
  its URL and closed before the next was created (the calls are accepted by
  \<open>sequential\<close>, which ends idle). When it returns an error, the URLs before some URL
  were handled with success, the error is that of the fetch of that URL or of the \<open>Close\<close>
  after it, and the world it returns is the world right after that failure: nothing was
  created or fetched for the URLs that follow. In the other direction: after URLs
  handled with success, a \<open>downloadFile\<close> that fails makes the strategy return that
  error in the world the fetch left, whatever URLs follow; a \<open>Close\<close> that fails after a
  fetch that succeeded makes it return that error in the world the \<open>Close\<close> left; and a
  fetch and a \<open>Close\<close> that both succeed make the URL one more URL handled with success.
  Given no URL the strategy returns no error, the world as it was.
\<close>

theorem multiconnect_sequential:
  "(runMultiConnectTest env urls w = (None, w') \<longrightarrow>
      opened (delta w w') = map http09_conn [allocated w ..< allocated w + length urls]
    \<and> closed (delta w w') = opened (delta w w')
    \<and> map (\<lambda>(r, q). (r, URL q)) (fetched (delta w w')) = zip (opened (delta w w')) urls
    \<and> length (opened (delta w w')) = length urls \<and> distinct (opened (delta w w'))
    \<and> sequential Idle (delta w w') = Some Idle)
   \<and> (runMultiConnectTest env urls w = (Some e, w') \<longrightarrow>
      (\<exists>us u rest wk r wk1.
          urls = us @ u # rest
        \<and> runMultiConnectTest env us w = (None, wk)
        \<and> new_RoundTripper http09 tlsConf wk = (r, wk1)
        \<and> (downloadFile env r u False wk1 = (Some e, w')
           \<or> (\<exists>w2. downloadFile env r u False wk1 = (None, w2) \<and> Close env r w2 = (Some e, w')))))
   \<and> runMultiConnectTest env [] w = (None, w)
   \<and> (runMultiConnectTest env pre w = (None, wd)
        \<and> new_RoundTripper http09 tlsConf wd = (rd, wd1)
        \<and> downloadFile env rd url False wd1 = (Some err, wd2) \<longrightarrow>
      runMultiConnectTest env (pre @ url # post) w = (Some err, wd2))
   \<and> (runMultiConnectTest env pre w = (None, wd)
        \<and> new_RoundTripper http09 tlsConf wd = (rd, wd1)
        \<and> downloadFile env rd url False wd1 = (None, wd2)
        \<and> Close env rd wd2 = (Some err, wd3) \<longrightarrow>
      runMultiConnectTest env (pre @ url # post) w = (Some err, wd3))
   \<and> (runMultiConnectTest env pre w = (None, wd)
        \<and> new_RoundTripper http09 tlsConf wd = (rd, wd1)
        \<and> downloadFile env rd url False wd1 = (None, wd2)
        \<and> Close env rd wd2 = (None, wd3) \<longrightarrow>
      runMultiConnectTest env (pre @ [url]) w = (None, wd3))"
proof -
  have bwd: "(runMultiConnectTest env urls w = (None, w') \<longrightarrow>
      opened (delta w w') = map http09_conn [allocated w ..< allocated w + length urls]
    \<and> closed (delta w w') = opened (delta w w')
    \<and> map (\<lambda>(r, q). (r, URL q)) (fetched (delta w w')) = zip (opened (delta w w')) urls
    \<and> length (opened (delta w w')) = length urls \<and> distinct (opened (delta w w'))
    \<and> sequential Idle (delta w w') = Some Idle)
   \<and> (runMultiConnectTest env urls w = (Some e, w') \<longrightarrow>
      (\<exists>us u rest wk r wk1.
          urls = us @ u # rest
        \<and> runMultiConnectTest env us w = (None, wk)
        \<and> new_RoundTripper http09 tlsConf wk = (r, wk1)
        \<and> (downloadFile env r u False wk1 = (Some e, w')
           \<or> (\<exists>w2. downloadFile env r u False wk1 = (None, w2) \<and> Close env r w2 = (Some e, w')))))"
  proof (intro conjI impI)
    assume ok: "runMultiConnectTest env urls w = (None, w')"
    from multiconnect_success [OF ok] obtain evs where e:
        "trace w' = trace w @ evs"
        "opened evs = map http09_conn [allocated w ..< allocated w + length urls]"
        "closed evs = opened evs"
        "map (\<lambda>(r, q). (r, URL q)) (fetched evs) = zip (opened evs) urls"
        "sequential Idle evs = Some Idle"
      by blast
    from e(1) have d: "delta w w' = evs" by (simp add: delta_def)
    have inj: "inj_on http09_conn A" for A
      by (auto simp: inj_on_def http09_conn_def)
    show "opened (delta w w') = map http09_conn [allocated w ..< allocated w + length urls]"
      "closed (delta w w') = opened (delta w w')"
      "map (\<lambda>(r, q). (r, URL q)) (fetched (delta w w')) = zip (opened (delta w w')) urls"
      "sequential Idle (delta w w') = Some Idle"
      "length (opened (delta w w')) = length urls"
      "distinct (opened (delta w w'))"
      unfolding d using e by (simp_all add: distinct_map inj)
  next
    assume bad: "runMultiConnectTest env urls w = (Some e, w')"
    from multiconnect_failure [OF bad] obtain us u rest wk where f:
        "urls = us @ u # rest" "runMultiConnectTest env us w = (None, wk)"
        "connect_once env u wk = (Some e, w')"
      by blast
    obtain r wk1 where n: "new_RoundTripper http09 tlsConf wk = (r, wk1)"
      by (cases "new_RoundTripper http09 tlsConf wk")
    from f(3) n have "downloadFile env r u False wk1 = (Some e, w')
             \<or> (\<exists>w2. downloadFile env r u False wk1 = (None, w2) \<and> Close env r w2 = (Some e, w'))"
      by (auto simp: connect_once_def split: prod.splits option.splits)
    with f n show "\<exists>us u rest wk r wk1.
            urls = us @ u # rest
          \<and> runMultiConnectTest env us w = (None, wk)
          \<and> new_RoundTripper http09 tlsConf wk = (r, wk1)
          \<and> (downloadFile env r u False wk1 = (Some e, w')
             \<or> (\<exists>w2. downloadFile env r u False wk1 = (None, w2) \<and> Close env r w2 = (Some e, w')))"
      by blast
  qed
  have f1: "runMultiConnectTest env pre w = (None, wd)
        \<and> new_RoundTripper http09 tlsConf wd = (rd, wd1)
        \<and> downloadFile env rd url False wd1 = (Some err, wd2) \<longrightarrow>
      runMultiConnectTest env (pre @ url # post) w = (Some err, wd2)"
    by (auto simp: runMultiConnectTest_append connect_once_def)
  have f2: "runMultiConnectTest env pre w = (None, wd)
        \<and> new_RoundTripper http09 tlsConf wd = (rd, wd1)
        \<and> downloadFile env rd url False wd1 = (None, wd2)
        \<and> Close env rd wd2 = (Some err, wd3) \<longrightarrow>
      runMultiConnectTest env (pre @ url # post) w = (Some err, wd3)"
    by (auto simp: runMultiConnectTest_append connect_once_def)
  have f3: "runMultiConnectTest env pre w = (None, wd)
        \<and> new_RoundTripper http09 tlsConf wd = (rd, wd1)
        \<and> downloadFile env rd url False wd1 = (None, wd2)
        \<and> Close env rd wd2 = (None, wd3) \<longrightarrow>
      runMultiConnectTest env (pre @ [url]) w = (None, wd3)"
    by (auto simp: runMultiConnectTest_append connect_once_def)
  have f0: "runMultiConnectTest env [] w = (None, w)" by simp
  note b1 = bwd [THEN conjunct1] and b2 = bwd [THEN conjunct2]
  from b1 b2 f0 f1 f2 f3 show ?thesis by (intro conjI)
qed

theorem multiconnect_sequential_witness:
  "opened (delta w0 (snd (runMultiConnectTest env_ok [''/a'', ''/b''] w0)))
     = [http09_conn 0, http09_conn 1]
   \<and> closed (delta w0 (snd (runMultiConnectTest env_ok [''/a'', ''/b''] w0)))
     = [http09_conn 0, http09_conn 1]
   \<and> sequential Idle (delta w0 (snd (runMultiConnectTest env_ok [''/a'', ''/b''] w0))) = Some Idle
   \<and> (\<exists>us u rest wk r wk1.
          [''/a'', ''/b'', ''/c''] = us @ u # rest
        \<and> runMultiConnectTest (env_one ''/b'' (Error ''timeout'')) us w0 = (None, wk)
        \<and> new_RoundTripper http09 tlsConf wk = (r, wk1)
        \<and> (downloadFile (env_one ''/b'' (Error ''timeout'')) r u False wk1
              = (Some (Error ''timeout''),
                 snd (runMultiConnectTest (env_one ''/b'' (Error ''timeout'')) [''/a'', ''/b'', ''/c''] w0))
           \<or> (\<exists>w2. downloadFile (env_one ''/b'' (Error ''timeout'')) r u False wk1 = (None, w2)
                \<and> Close (env_one ''/b'' (Error ''timeout'')) r w2
                  = (Some (Error ''timeout''),
                     snd (runMultiConnectTest (env_one ''/b'' (Error ''timeout''))
                            [''/a'', ''/b'', ''/c''] w0)))))
   \<and> fst (runMultiConnectTest (env_one ''/a'' (Error ''timeout'')) [''/a'', ''/b''] w0)
       = Some (Error ''timeout'')
   \<and> fst (runMultiConnectTest (env_close (Error ''closed'')) [''/a'', ''/b''] w0)
       = Some (Error ''closed'')
   \<and> fst (runMultiConnectTest env_ok [''/a''] w0) = None"
proof -
  let ?bad = "env_one ''/b'' (Error ''timeout'')"
  have "fst (runMultiConnectTest env_ok [''/a'', ''/b''] w0) = None"
    by code_simp
  then have h1: "runMultiConnectTest env_ok [''/a'', ''/b''] w0
                   = (None, snd (runMultiConnectTest env_ok [''/a'', ''/b''] w0))"
    by (simp add: prod_eq_iff)
  have "fst (runMultiConnectTest ?bad [''/a'', ''/b'', ''/c''] w0) = Some (Error ''timeout'')"
    by code_simp
  then have h2: "runMultiConnectTest ?bad [''/a'', ''/b'', ''/c''] w0
      = (Some (Error ''timeout''), snd (runMultiConnectTest ?bad [''/a'', ''/b'', ''/c''] w0))"
    by (simp add: prod_eq_iff)
  have a: "allocated w0 = 0" by (simp add: w0_def)
  from multiconnect_sequential [where env = env_ok and urls = "[''/a'', ''/b'']" and w = w0
      and w' = "snd (runMultiConnectTest env_ok [''/a'', ''/b''] w0)", THEN conjunct1] h1
  have ok: "opened (delta w0 (snd (runMultiConnectTest env_ok [''/a'', ''/b''] w0)))
          = map http09_conn [allocated w0 ..< allocated w0 + length [''/a'', ''/b'']]
      \<and> closed (delta w0 (snd (runMultiConnectTest env_ok [''/a'', ''/b''] w0)))
          = opened (delta w0 (snd (runMultiConnectTest env_ok [''/a'', ''/b''] w0)))
      \<and> map (\<lambda>(r, q). (r, URL q)) (fetched (delta w0 (snd (runMultiConnectTest env_ok [''/a'', ''/b''] w0))))
          = zip (opened (delta w0 (snd (runMultiConnectTest env_ok [''/a'', ''/b''] w0)))) [''/a'', ''/b'']
      \<and> length (opened (delta w0 (snd (runMultiConnectTest env_ok [''/a'', ''/b''] w0))))
          = length [''/a'', ''/b'']
      \<and> distinct (opened (delta w0 (snd (runMultiConnectTest env_ok [''/a'', ''/b''] w0))))
      \<and> sequential Idle (delta w0 (snd (runMultiConnectTest env_ok [''/a'', ''/b''] w0))) = Some Idle"
    by (rule mp)
  have m: "map http09_conn [allocated w0 ..< allocated w0 + length [''/a'', ''/b'']]
                   = [http09_conn 0, http09_conn 1]"
    by (simp add: a upt_conv_Cons del: upt_Suc)
  from ok m have c1: "opened (delta w0 (snd (runMultiConnectTest env_ok [''/a'', ''/b''] w0)))
     = [http09_conn 0, http09_conn 1]"
      and c2: "closed (delta w0 (snd (runMultiConnectTest env_ok [''/a'', ''/b''] w0)))
     = [http09_conn 0, http09_conn 1]"
      and c3: "sequential Idle (delta w0 (snd (runMultiConnectTest env_ok [''/a'', ''/b''] w0)))
     = Some Idle"
    by simp_all
  from multiconnect_sequential [where env = ?bad
      and urls = "[''/a'', ''/b'', ''/c'']" and w = w0 and e = "Error ''timeout''"
      and w' = "snd (runMultiConnectTest ?bad [''/a'', ''/b'', ''/c''] w0)",
      THEN conjunct2, THEN conjunct1] h2
  have c4: "\<exists>us u rest wk r wk1.
          [''/a'', ''/b'', ''/c''] = us @ u # rest
        \<and> runMultiConnectTest ?bad us w0 = (None, wk)
        \<and> new_RoundTripper http09 tlsConf wk = (r, wk1)
        \<and> (downloadFile ?bad r u False wk1
              = (Some (Error ''timeout''), snd (runMultiConnectTest ?bad [''/a'', ''/b'', ''/c''] w0))
           \<or> (\<exists>w2. downloadFile ?bad r u False wk1 = (None, w2)
                \<and> Close ?bad r w2
                  = (Some (Error ''timeout''),
                     snd (runMultiConnectTest ?bad [''/a'', ''/b'', ''/c''] w0))))"
    by (rule mp)
  let ?env = "env_one ''/a'' (Error ''timeout'')"
  let ?w1 = "snd (new_RoundTripper http09 tlsConf w0)"
  let ?w2 = "snd (downloadFile ?env (http09_conn 0) ''/a'' False ?w1)"
  have g1: "runMultiConnectTest ?env [] w0 = (None, w0)" by simp
  have g2: "new_RoundTripper http09 tlsConf w0 = (http09_conn 0, ?w1)"
    by (simp add: new_RoundTripper_def http09_conn_def w0_def Let_def)
  have "fst (downloadFile ?env (http09_conn 0) ''/a'' False ?w1) = Some (Error ''timeout'')"
    by (simp add: downloadFile_def ext_defs env_defs env_one_def Let_def)
  then have g3: "downloadFile ?env (http09_conn 0) ''/a'' False ?w1 = (Some (Error ''timeout''), ?w2)"
    by (simp add: prod_eq_iff)
  from g1 g2 g3 have g: "runMultiConnectTest ?env [] w0 = (None, w0)
        \<and> new_RoundTripper http09 tlsConf w0 = (http09_conn 0, ?w1)
        \<and> downloadFile ?env (http09_conn 0) ''/a'' False ?w1 = (Some (Error ''timeout''), ?w2)"
    by (intro conjI)
  from multiconnect_sequential [where env = ?env and w = w0 and pre = "[]" and wd = w0
      and rd = "http09_conn 0" and ?wd1.0 = ?w1 and url = "''/a''" and err = "Error ''timeout''"
      and ?wd2.0 = ?w2 and post = "[''/b'']",
      THEN conjunct2, THEN conjunct2, THEN conjunct2, THEN conjunct1] g
  have "runMultiConnectTest ?env ([] @ ''/a'' # [''/b'']) w0 = (Some (Error ''timeout''), ?w2)"
    by (rule mp)
  then have c5: "fst (runMultiConnectTest ?env [''/a'', ''/b''] w0) = Some (Error ''timeout'')"
    by simp
  let ?ec = "env_close (Error ''closed'')"
  let ?v2 = "snd (downloadFile ?ec (http09_conn 0) ''/a'' False ?w1)"
  let ?v3 = "snd (Close ?ec (http09_conn 0) ?v2)"
  have k1: "runMultiConnectTest ?ec [] w0 = (None, w0)" by simp
  have "fst (downloadFile ?ec (http09_conn 0) ''/a'' False ?w1) = None"
    by (simp add: downloadFile_def ext_defs env_defs Let_def)
  then have k3: "downloadFile ?ec (http09_conn 0) ''/a'' False ?w1 = (None, ?v2)"
    by (simp add: prod_eq_iff)
  have "fst (Close ?ec (http09_conn 0) ?v2) = Some (Error ''closed'')"
    by (simp add: Close_def env_close_def)
  then have k4: "Close ?ec (http09_conn 0) ?v2 = (Some (Error ''closed''), ?v3)"
    by (simp add: prod_eq_iff)
  from k1 g2 k3 k4 have k: "runMultiConnectTest ?ec [] w0 = (None, w0)
        \<and> new_RoundTripper http09 tlsConf w0 = (http09_conn 0, ?w1)
        \<and> downloadFile ?ec (http09_conn 0) ''/a'' False ?w1 = (None, ?v2)
        \<and> Close ?ec (http09_conn 0) ?v2 = (Some (Error ''closed''), ?v3)"
    by (intro conjI)
  from multiconnect_sequential [where env = ?ec and w = w0 and pre = "[]" and wd = w0
      and rd = "http09_conn 0" and ?wd1.0 = ?w1 and url = "''/a''" and err = "Error ''closed''"
      and ?wd2.0 = ?v2 and ?wd3.0 = ?v3 and post = "[''/b'']",
      THEN conjunct2, THEN conjunct2, THEN conjunct2, THEN conjunct2, THEN conjunct1] k
  have "runMultiConnectTest ?ec ([] @ ''/a'' # [''/b'']) w0 = (Some (Error ''closed''), ?v3)"
    by (rule mp)
  then have c6: "fst (runMultiConnectTest ?ec [''/a'', ''/b''] w0) = Some (Error ''closed'')"
    by simp
  let ?u2 = "snd (downloadFile env_ok (http09_conn 0) ''/a'' False ?w1)"
  let ?u3 = "snd (Close env_ok (http09_conn 0) ?u2)"
  have s1: "runMultiConnectTest env_ok [] w0 = (None, w0)" by simp
  have "fst (downloadFile env_ok (http09_conn 0) ''/a'' False ?w1) = None"
    by (simp add: downloadFile_def ext_defs env_defs Let_def)
  then have s3: "downloadFile env_ok (http09_conn 0) ''/a'' False ?w1 = (None, ?u2)"
    by (simp add: prod_eq_iff)
  have "fst (Close env_ok (http09_conn 0) ?u2) = None"
    by (simp add: Close_def env_ok_def)
  then have s4: "Close env_ok (http09_conn 0) ?u2 = (None, ?u3)"
    by (simp add: prod_eq_iff)
  from s1 g2 s3 s4 have s: "runMultiConnectTest env_ok [] w0 = (None, w0)
        \<and> new_RoundTripper http09 tlsConf w0 = (http09_conn 0, ?w1)
        \<and> downloadFile env_ok (http09_conn 0) ''/a'' False ?w1 = (None, ?u2)
        \<and> Close env_ok (http09_conn 0) ?u2 = (None, ?u3)"
    by (intro conjI)
  from multiconnect_sequential [where env = env_ok and w = w0 and pre = "[]" and wd = w0
      and rd = "http09_conn 0" and ?wd1.0 = ?w1 and url = "''/a''"
      and ?wd2.0 = ?u2 and ?wd3.0 = ?u3,
      THEN conjunct2, THEN conjunct2, THEN conjunct2, THEN conjunct2, THEN conjunct2] s
  have "runMultiConnectTest env_ok ([] @ [''/a'']) w0 = (None, ?u3)"
    by (rule mp)
  then have c7: "fst (runMultiConnectTest env_ok [''/a''] w0) = None"
    by simp
  from c1 c2 c3 c4 c5 c6 c7 show ?thesis by (intro conjI)
qed
subsection \<open>C8\<close>




subsection \<open>C9\<close>

text \<open>
  C9, as the code has it: the probe does not put the supported versions back. Given
  exactly one URL, after the probe has returned (with success or with an error) the
  global list of supported versions is the single value \<open>0x1a2a3a4a\<close>; given any other
  number of URLs the list is the one before the call.
\<close>

theorem versionnegotiation_versions_after:
  "SupportedVersions (snd (runVersionNegotiationTest env urls w)) =
     (if length urls = 1 then [0x1a2a3a4a] else SupportedVersions w)"
proof (cases "length urls = 1")
  case True
  obtain r w1 where n:
    "new_RoundTripper http09 nil_config (w\<lparr>SupportedVersions := [0x1a2a3a4a]\<rparr>) = (r, w1)"
    by (cases "new_RoundTripper http09 nil_config (w\<lparr>SupportedVersions := [0x1a2a3a4a]\<rparr>)")
  then have v1: "SupportedVersions w1 = [0x1a2a3a4a]"
    by (auto simp: new_RoundTripper_def emit_def Let_def)
  have "SupportedVersions (snd (downloadFile env r (urls ! 0) False w1)) = [0x1a2a3a4a]"
    by (simp add: downloadFile_versions v1)
  with True n show ?thesis
    by (auto simp: runVersionNegotiationTest_def split: prod.splits option.splits)
next
  case False
  then show ?thesis by (simp add: runVersionNegotiationTest_def)
qed

theorem versionnegotiation_versions_after_witness:
  "SupportedVersions (snd (runVersionNegotiationTest env_ok [''/a''] w0)) = [0x1a2a3a4a]
   \<and> SupportedVersions (snd (runVersionNegotiationTest env_ok [] w0)) = [0xff00001d]"
  using versionnegotiation_versions_after [where urls = "[''/a'']" and env = env_ok and w = w0]
        versionnegotiation_versions_after [where urls = "[]" and env = env_ok and w = w0]
  by (simp add: w0_def)

text \<open>
  C9 as stated fails: after a probe of one URL the supported versions differ from
  those before the call.
\<close>

theorem versionnegotiation_versions_not_restored:
  "SupportedVersions (snd (runVersionNegotiationTest env_ok [''/a''] w0)) \<noteq> SupportedVersions w0"
  by (simp add: runVersionNegotiationTest_def downloadFile_def ext_defs env_defs Let_def)

subsection \<open>C10\<close>

text \<open>
  C10: if building the request fails, \<open>downloadFile\<close> returns that error and leaves the
  world as it was; if the exchange fails, it returns that error, the exchange is the only
  call it made, and no file was created; and when the exchange returns a response, the
  call of \<open>os.Create\<close> for the destination under \<open>/downloads\<close> comes right after the
  exchange and is the only one.
\<close>

theorem downloadFile_creates_after_response:
  "(NewRequest env (if use0RTT then MethodGet0RTT env else MethodGet) url = Inl err \<longrightarrow>
      downloadFile env cl url use0RTT w = (Some err, w))
   \<and> (NewRequest env (if use0RTT then MethodGet0RTT env else MethodGet) url = Inr req
        \<and> RoundTrip_result env w cl req = Inl err \<longrightarrow>
      downloadFile env cl url use0RTT w = (Some err, emit (RoundTrip_ev cl req) w)
      \<and> created (trace (snd (downloadFile env cl url use0RTT w))) = created (trace w))
   \<and> (NewRequest env (if use0RTT then MethodGet0RTT env else MethodGet) url = Inr req
        \<and> RoundTrip_result env w cl req = Inr rsp \<longrightarrow>
      (\<exists>evs. trace (snd (downloadFile env cl url use0RTT w)) =
               trace w @ [RoundTrip_ev cl req, Create_ev (''/downloads'' @ Path req)] @ evs
             \<and> created evs = []))"
  by (simp add: downloadFile_def RoundTrip_def os_Create_def io_Copy_def emit_def Let_def
        created_append split: option.splits)

theorem downloadFile_creates_after_response_witness:
  "downloadFile env_ok r0 ''%zz'' False w0 = (Some (Error ''invalid URL escape''), w0)
   \<and> created (trace (snd (downloadFile (env_rt (Error ''timeout'')) r0 ''/a'' False w0))) = []
   \<and> created (trace (snd (downloadFile env_ok r0 ''/a'' True w0))) = [''/downloads/a'']"
proof -
  have p: "NewRequest env_ok (if False then MethodGet0RTT env_ok else MethodGet) ''%zz''
             = Inl (Error ''invalid URL escape'')"
    by (simp add: NewRequest_def env_defs)
  have q: "NewRequest (env_rt (Error ''timeout''))
               (if False then MethodGet0RTT (env_rt (Error ''timeout'')) else MethodGet) ''/a''
             = Inr \<lparr>Method = ''GET'', URL = ''/a'', Path = ''/a''\<rparr>
           \<and> RoundTrip_result (env_rt (Error ''timeout'')) w0 r0
                \<lparr>Method = ''GET'', URL = ''/a'', Path = ''/a''\<rparr> = Inl (Error ''timeout'')"
    by (simp add: NewRequest_def env_defs)
  have r: "NewRequest env_ok (if True then MethodGet0RTT env_ok else MethodGet) ''/a''
             = Inr \<lparr>Method = ''GET_0RTT'', URL = ''/a'', Path = ''/a''\<rparr>
           \<and> RoundTrip_result env_ok w0 r0
                \<lparr>Method = ''GET_0RTT'', URL = ''/a'', Path = ''/a''\<rparr> = Inr ''body''"
    by (simp add: NewRequest_def env_defs)
  from p q r
    downloadFile_creates_after_response
      [where env = env_ok and use0RTT = False and url = "''%zz''" and cl = r0 and w = w0
         and err = "Error ''invalid URL escape''"]
    downloadFile_creates_after_response
      [where env = "env_rt (Error ''timeout'')" and use0RTT = False and url = "''/a''" and cl = r0
         and w = w0 and err = "Error ''timeout''"
         and req = "\<lparr>Method = ''GET'', URL = ''/a'', Path = ''/a''\<rparr>"]
    downloadFile_creates_after_response
      [where env = env_ok and use0RTT = True and url = "''/a''" and cl = r0 and w = w0
         and req = "\<lparr>Method = ''GET_0RTT'', URL = ''/a'', Path = ''/a''\<rparr>" and rsp = "''body''"]
  show ?thesis
    by (auto simp: created_append w0_def)
qed


end
